theory Spec2Isabelle
  imports Main "HOL-Library.Sublist"
begin

section \<open>Exceptions and user-interface messages\<close>

text \<open>
  A Python exception is its class and the text that \<open>str(e)\<close> gives. \<open>RemoteError\<close>
  stands for whatever the API client raises (network, quota, authentication).
  Every exception class used here derives from \<open>Exception\<close>.
  The text of a \<open>KeyError\<close> is the \<open>repr\<close> of the missing key; for the keys this
  program reads, which are plain words, that is the word between single quotes.
\<close>

datatype exn =
    ValueError string
  | TypeError string
  | KeyError string
  | OverflowError string
  | RemoteError string

fun exn_str :: "exn \<Rightarrow> string" where
  "exn_str (ValueError m) = m"
| "exn_str (TypeError m) = m"
| "exn_str (KeyError m) = m"
| "exn_str (OverflowError m) = m"
| "exn_str (RemoteError m) = m"

definition key_error :: "string \<Rightarrow> exn" where
  "key_error k = KeyError ([CHR 0x27] @ k @ [CHR 0x27])"

fun is_ValueError :: "exn \<Rightarrow> bool" where
  "is_ValueError (ValueError m) = True"
| "is_ValueError e = False"

text \<open>\<open>st.error\<close> and \<open>st.info\<close> write to the page; the model collects what was written.\<close>

datatype ui_message = St_error string | St_info string

section \<open>Decimal text\<close>

definition digit_char :: "nat \<Rightarrow> char" where
  "digit_char n = char_of (48 + n)"

text \<open>\<open>str(n)\<close> for a non-negative integer.\<close>

fun str_nat :: "nat \<Rightarrow> string" where
  "str_nat n = (if n < 10 then [digit_char n] else str_nat (n div 10) @ [digit_char (n mod 10)])"

declare str_nat.simps [simp del]

text \<open>The conversion \<open>%0wd\<close> of the \<open>%\<close> operator and \<open>{:0wd}\<close> of \<open>str.format\<close>.\<close>

definition zero_pad :: "nat \<Rightarrow> string \<Rightarrow> string" where
  "zero_pad w s = replicate (w - length s) (CHR ''0'') @ s"

definition fmt_0d :: "nat \<Rightarrow> int \<Rightarrow> string" where
  "fmt_0d w i =
     (if i < 0 then CHR ''-'' # zero_pad (w - 1) (str_nat (nat (- i)))
      else zero_pad w (str_nat (nat i)))"

text \<open>\<open>int(s)\<close> on the text of a matched group: decimal digits after optional blanks.\<close>

definition is_digit :: "char \<Rightarrow> bool" where
  "is_digit c = (48 \<le> (of_char c :: nat) \<and> (of_char c :: nat) \<le> 57)"

definition digit_val :: "char \<Rightarrow> int" where
  "digit_val c = int (of_char c) - 48"

definition digits_int :: "string \<Rightarrow> int" where
  "digits_int s = foldl (\<lambda>acc c. 10 * acc + digit_val c) 0 s"

definition py_int :: "string \<Rightarrow> int" where
  "py_int s = digits_int (dropWhile (\<lambda>c. c = CHR '' '') s)"

section \<open>The datetime library\<close>

subsection \<open>Calendar arithmetic\<close>

definition MINYEAR :: int where "MINYEAR = 1"
definition MAXYEAR :: int where "MAXYEAR = 9999"
definition MAXORDINAL :: int where "MAXORDINAL = 3652059"

definition DAYS_IN_MONTH :: "int list" where
  "DAYS_IN_MONTH = [-1, 31, 28, 31, 30, 31, 30, 31, 31, 30, 31, 30, 31]"

definition DAYS_BEFORE_MONTH :: "int list" where
  "DAYS_BEFORE_MONTH = [-1, 0, 31, 59, 90, 120, 151, 181, 212, 243, 273, 304, 334]"

definition is_leap :: "int \<Rightarrow> bool" where
  "is_leap y = (y mod 4 = 0 \<and> (y mod 100 \<noteq> 0 \<or> y mod 400 = 0))"

definition days_before_year :: "int \<Rightarrow> int" where
  "days_before_year yr = (let y = yr - 1 in y * 365 + y div 4 - y div 100 + y div 400)"

definition days_in_month :: "int \<Rightarrow> int \<Rightarrow> int" where
  "days_in_month y m = (if m = 2 \<and> is_leap y then 29 else DAYS_IN_MONTH ! nat m)"

definition days_before_month :: "int \<Rightarrow> int \<Rightarrow> int" where
  "days_before_month y m = DAYS_BEFORE_MONTH ! nat m + (if m > 2 \<and> is_leap y then 1 else 0)"

definition ymd2ord :: "int \<Rightarrow> int \<Rightarrow> int \<Rightarrow> int" where
  "ymd2ord y m d = days_before_year y + days_before_month y m + d"

definition DI400Y :: int where "DI400Y = days_before_year 401"
definition DI100Y :: int where "DI100Y = days_before_year 101"
definition DI4Y :: int where "DI4Y = days_before_year 5"

definition ord2ymd :: "int \<Rightarrow> int \<times> int \<times> int" where
  "ord2ymd n0 =
     (let n = n0 - 1;
          n400 = n div DI400Y; n = n mod DI400Y;
          yr = n400 * 400 + 1;
          n100 = n div DI100Y; n = n mod DI100Y;
          n4 = n div DI4Y; n = n mod DI4Y;
          n1 = n div 365; n = n mod 365;
          yr = yr + n100 * 100 + n4 * 4 + n1
      in if n1 = 4 \<or> n100 = 4 then (yr - 1, 12, 31)
         else
           let leapyear = (n1 = 3 \<and> (n4 \<noteq> 24 \<or> n100 = 3));
               mo = (n + 50) div 32;
               preceding = DAYS_BEFORE_MONTH ! nat mo + (if mo > 2 \<and> leapyear then 1 else 0)
           in if preceding > n
              then let mo = mo - 1;
                       preceding = preceding - (DAYS_IN_MONTH ! nat mo + (if mo = 2 \<and> leapyear then 1 else 0))
                   in (yr, mo, n - preceding + 1)
              else (yr, mo, n - preceding + 1))"

subsection \<open>Naive datetime objects\<close>

record datetime =
  year :: int
  month :: int
  day :: int
  hour :: int
  minute :: int
  second :: int
  microsecond :: int

text \<open>The constructor \<open>datetime(y, m, d, H, M, S, us)\<close> with its range checks, in their order.\<close>

definition datetime_new :: "int \<Rightarrow> int \<Rightarrow> int \<Rightarrow> int \<Rightarrow> int \<Rightarrow> int \<Rightarrow> int \<Rightarrow> exn + datetime" where
  "datetime_new y m d H M S us =
     (if \<not> (MINYEAR \<le> y \<and> y \<le> MAXYEAR) then Inl (ValueError ''year must be in 1..9999'')
      else if \<not> (1 \<le> m \<and> m \<le> 12) then Inl (ValueError ''month must be in 1..12'')
      else if \<not> (1 \<le> d \<and> d \<le> days_in_month y m) then Inl (ValueError ''day is out of range for month'')
      else if \<not> (0 \<le> H \<and> H \<le> 23) then Inl (ValueError ''hour must be in 0..23'')
      else if \<not> (0 \<le> M \<and> M \<le> 59) then Inl (ValueError ''minute must be in 0..59'')
      else if \<not> (0 \<le> S \<and> S \<le> 59) then Inl (ValueError ''second must be in 0..59'')
      else if \<not> (0 \<le> us \<and> us \<le> 999999) then Inl (ValueError ''microsecond must be in 0..999999'')
      else Inr \<lparr>year = y, month = m, day = d, hour = H, minute = M, second = S, microsecond = us\<rparr>)"

text \<open>Every datetime object was built by the constructor, so it satisfies the checks.\<close>

definition valid_datetime :: "datetime \<Rightarrow> bool" where
  "valid_datetime t =
     (MINYEAR \<le> year t \<and> year t \<le> MAXYEAR \<and> 1 \<le> month t \<and> month t \<le> 12 \<and>
      1 \<le> day t \<and> day t \<le> days_in_month (year t) (month t) \<and>
      0 \<le> hour t \<and> hour t \<le> 23 \<and> 0 \<le> minute t \<and> minute t \<le> 59 \<and>
      0 \<le> second t \<and> second t \<le> 59 \<and> 0 \<le> microsecond t \<and> microsecond t \<le> 999999)"

definition toordinal :: "datetime \<Rightarrow> int" where
  "toordinal t = ymd2ord (year t) (month t) (day t)"

text \<open>Comparison of naive datetimes is the comparison of their field tuples.\<close>

fun tuple_le :: "int list \<Rightarrow> int list \<Rightarrow> bool" where
  "tuple_le [] ys = True"
| "tuple_le (x # xs) [] = False"
| "tuple_le (x # xs) (y # ys) = (x < y \<or> (x = y \<and> tuple_le xs ys))"

definition getstate :: "datetime \<Rightarrow> int list" where
  "getstate t = [year t, month t, day t, hour t, minute t, second t, microsecond t]"

definition datetime_ge :: "datetime \<Rightarrow> datetime \<Rightarrow> bool" where
  "datetime_ge a b = tuple_le (getstate b) (getstate a)"

subsection \<open>Subtracting a timedelta\<close>

record timedelta =
  days :: int
  seconds :: int
  microseconds :: int

text \<open>The constructor normalises: seconds in \<open>0..86399\<close>, microseconds in \<open>0..999999\<close>.\<close>

definition timedelta_new :: "int \<Rightarrow> int \<Rightarrow> int \<Rightarrow> timedelta" where
  "timedelta_new d s us =
     (let s = s + us div 1000000; us = us mod 1000000;
          d = d + s div 86400; s = s mod 86400
      in \<lparr>days = d, seconds = s, microseconds = us\<rparr>)"

definition timedelta_neg :: "timedelta \<Rightarrow> timedelta" where
  "timedelta_neg a = timedelta_new (- days a) (- seconds a) (- microseconds a)"

definition timedelta_add :: "timedelta \<Rightarrow> timedelta \<Rightarrow> timedelta" where
  "timedelta_add a b =
     timedelta_new (days a + days b) (seconds a + seconds b) (microseconds a + microseconds b)"

text \<open>\<open>datetime.__add__\<close>: through the ordinal of the date and back.\<close>

definition datetime_add :: "datetime \<Rightarrow> timedelta \<Rightarrow> exn + datetime" where
  "datetime_add t other =
     (let delta = timedelta_add
                    (timedelta_new (toordinal t)
                       (hour t * 3600 + minute t * 60 + second t) (microsecond t))
                    other;
          hour' = seconds delta div 3600; rem = seconds delta mod 3600;
          minute' = rem div 60; second' = rem mod 60
      in if 0 < days delta \<and> days delta \<le> MAXORDINAL
         then (case ord2ymd (days delta) of
                 (y, m, d) \<Rightarrow>
                   Inr \<lparr>year = y, month = m, day = d, hour = hour', minute = minute',
                        second = second', microsecond = microseconds delta\<rparr>)
         else Inl (OverflowError ''date value out of range''))"

definition datetime_sub :: "datetime \<Rightarrow> timedelta \<Rightarrow> exn + datetime" where
  "datetime_sub t other = datetime_add t (timedelta_neg other)"

subsection \<open>isoformat\<close>

definition format_time :: "int \<Rightarrow> int \<Rightarrow> int \<Rightarrow> int \<Rightarrow> string" where
  "format_time hh mm ss us =
     (if us \<noteq> 0
      then fmt_0d 2 hh @ '':'' @ fmt_0d 2 mm @ '':'' @ fmt_0d 2 ss @ ''.'' @ fmt_0d 6 us
      else fmt_0d 2 hh @ '':'' @ fmt_0d 2 mm @ '':'' @ fmt_0d 2 ss)"

definition isoformat :: "datetime \<Rightarrow> char \<Rightarrow> string" where
  "isoformat t sep =
     fmt_0d 4 (year t) @ ''-'' @ fmt_0d 2 (month t) @ ''-'' @ fmt_0d 2 (day t) @ [sep] @
     format_time (hour t) (minute t) (second t) (microsecond t)"

subsection \<open>strptime\<close>

text \<open>
  \<open>datetime.strptime\<close> turns the format into a regular expression, one group per
  directive, matches it case-insensitively at the start of the text and refuses text
  left over. The model has the directives the formats of this program use. A text is a
  list of 8-bit characters, so \<open>\d\<close> is a digit \<open>0..9\<close>; the message of an exception
  raised here quotes its data plainly (no caller shows these messages).
\<close>

datatype char_class = Any_digit | Range char char | Exactly char

text \<open>Lower case of an ASCII code: matching ignores the case of letters.\<close>

definition lower_ascii :: "nat \<Rightarrow> nat" where
  "lower_ascii n = (if 65 \<le> n \<and> n \<le> 90 then n + 32 else n)"

fun class_match :: "char_class \<Rightarrow> char \<Rightarrow> bool" where
  "class_match Any_digit c = is_digit c"
| "class_match (Range a b) c = ((of_char a :: nat) \<le> of_char c \<and> (of_char c :: nat) \<le> of_char b)"
| "class_match (Exactly a) c = (lower_ascii (of_char a) = lower_ascii (of_char c))"

datatype directive = Dir_Y | Dir_m | Dir_d | Dir_H | Dir_M | Dir_S | Dir_f

datatype token = Directive directive | Literal char

text \<open>The table of \<open>TimeRE\<close>: the alternatives of each group, in the order they are tried.\<close>

fun directive_regex :: "directive \<Rightarrow> char_class list list" where
  "directive_regex Dir_d =
     [[Exactly (CHR ''3''), Range (CHR ''0'') (CHR ''1'')],
      [Range (CHR ''1'') (CHR ''2''), Any_digit],
      [Exactly (CHR ''0''), Range (CHR ''1'') (CHR ''9'')],
      [Range (CHR ''1'') (CHR ''9'')],
      [Exactly (CHR '' ''), Range (CHR ''1'') (CHR ''9'')]]"
| "directive_regex Dir_f =
     map (\<lambda>k. replicate k (Range (CHR ''0'') (CHR ''9''))) [6, 5, 4, 3, 2, 1]"
| "directive_regex Dir_H =
     [[Exactly (CHR ''2''), Range (CHR ''0'') (CHR ''3'')],
      [Range (CHR ''0'') (CHR ''1''), Any_digit],
      [Any_digit]]"
| "directive_regex Dir_m =
     [[Exactly (CHR ''1''), Range (CHR ''0'') (CHR ''2'')],
      [Exactly (CHR ''0''), Range (CHR ''1'') (CHR ''9'')],
      [Range (CHR ''1'') (CHR ''9'')]]"
| "directive_regex Dir_M =
     [[Range (CHR ''0'') (CHR ''5''), Any_digit],
      [Any_digit]]"
| "directive_regex Dir_S =
     [[Exactly (CHR ''6''), Range (CHR ''0'') (CHR ''1'')],
      [Range (CHR ''0'') (CHR ''5''), Any_digit],
      [Any_digit]]"
| "directive_regex Dir_Y = [[Any_digit, Any_digit, Any_digit, Any_digit]]"

definition directive_of :: "char \<Rightarrow> directive option" where
  "directive_of c =
     (if c = CHR ''Y'' then Some Dir_Y else if c = CHR ''m'' then Some Dir_m
      else if c = CHR ''d'' then Some Dir_d else if c = CHR ''H'' then Some Dir_H
      else if c = CHR ''M'' then Some Dir_M else if c = CHR ''S'' then Some Dir_S
      else if c = CHR ''f'' then Some Dir_f else None)"

text \<open>\<open>TimeRE.pattern\<close>: a \<open>%\<close> takes the next character as its directive.\<close>

fun pattern :: "string \<Rightarrow> token list option" where
  "pattern [] = Some []"
| "pattern [c] = (if c = CHR ''%'' then None else Some [Literal c])"
| "pattern (c # k # cs) =
     (if c = CHR ''%''
      then (case directive_of k of
              None \<Rightarrow> None
            | Some d \<Rightarrow> map_option (Cons (Directive d)) (pattern cs))
      else map_option (Cons (Literal c)) (pattern (k # cs)))"

fun token_regex :: "token \<Rightarrow> char_class list list" where
  "token_regex (Directive d) = directive_regex d"
| "token_regex (Literal c) = [[Exactly c]]"

fun match_classes :: "char_class list \<Rightarrow> string \<Rightarrow> (string \<times> string) option" where
  "match_classes [] s = Some ([], s)"
| "match_classes (k # ks) [] = None"
| "match_classes (k # ks) (c # s) =
     (if class_match k c
      then (case match_classes ks s of None \<Rightarrow> None | Some (m, r) \<Rightarrow> Some (c # m, r))
      else None)"

text \<open>
  \<open>re.match\<close> on a sequence of groups: the first alternative of a group that lets the
  rest of the expression match wins (backtracking). The result is the text of each group
  and the unmatched rest.
\<close>

fun re_match :: "char_class list list list \<Rightarrow> string \<Rightarrow> (string list \<times> string) option" where
  "re_match [] s = Some ([], s)"
| "re_match ([] # gs) s = None"
| "re_match ((a # as) # gs) s =
     (case match_classes a s of
        None \<Rightarrow> re_match (as # gs) s
      | Some (m, r) \<Rightarrow>
          (case re_match gs r of
             Some (ms, r') \<Rightarrow> Some (m # ms, r')
           | None \<Rightarrow> re_match (as # gs) s))"

definition found_dict :: "token list \<Rightarrow> string list \<Rightarrow> directive \<Rightarrow> string option" where
  "found_dict toks groups = map_of (zip toks groups) \<circ> Directive"

definition group_int :: "string option \<Rightarrow> int \<Rightarrow> int" where
  "group_int g dflt = (case g of None \<Rightarrow> dflt | Some s \<Rightarrow> py_int s)"

definition strptime :: "string option \<Rightarrow> string \<Rightarrow> exn + datetime" where
  "strptime data_string format =
     (case data_string of
        None \<Rightarrow> Inl (TypeError ''strptime() argument 1 must be str, not None'')
      | Some s \<Rightarrow>
          (case pattern format of
             None \<Rightarrow> Inl (ValueError (''bad directive in format '' @ format))
           | Some toks \<Rightarrow>
               (case re_match (map token_regex toks) s of
                  None \<Rightarrow> Inl (ValueError (''time data '' @ s @ '' does not match format '' @ format))
                | Some (groups, rest) \<Rightarrow>
                    if rest \<noteq> [] then Inl (ValueError (''unconverted data remains: '' @ rest))
                    else
                      let found = found_dict toks groups;
                          fraction = (case found Dir_f of
                                        None \<Rightarrow> 0
                                      | Some g \<Rightarrow> py_int (g @ replicate (6 - length g) (CHR ''0'')))
                      in datetime_new (group_int (found Dir_Y) 1900) (group_int (found Dir_m) 1)
                           (group_int (found Dir_d) 1) (group_int (found Dir_H) 0)
                           (group_int (found Dir_M) 0) (group_int (found Dir_S) 0) fraction)))"

section \<open>The program\<close>

subsection \<open>parse_iso_date\<close>

definition formats :: "string list" where
  "formats = [''%Y-%m-%dT%H:%M:%S.%fZ'', ''%Y-%m-%dT%H:%M:%SZ'']"

text \<open>What \<open>str()\<close> (and an f-string) shows for a value that is a text or \<open>None\<close>.\<close>

definition str_of :: "string option \<Rightarrow> string" where
  "str_of v = (case v of None \<Rightarrow> ''None'' | Some s \<Rightarrow> s)"

text \<open>
  The loop over the formats: a \<open>ValueError\<close> moves on to the next format, any other
  exception leaves the function, and running out of formats raises the final
  \<open>ValueError\<close>.
\<close>

fun try_formats :: "string option \<Rightarrow> string list \<Rightarrow> exn + datetime" where
  "try_formats date_str [] =
     Inl (ValueError (''Time data '' @ [CHR 0x27] @ str_of date_str @ [CHR 0x27] @
                      '' does not match expected formats.''))"
| "try_formats date_str (fmt # fmts) =
     (case strptime date_str fmt of
        Inr t \<Rightarrow> Inr t
      | Inl e \<Rightarrow> if is_ValueError e then try_formats date_str fmts else Inl e)"

definition parse_iso_date :: "string option \<Rightarrow> exn + datetime" where
  "parse_iso_date date_str = try_formats date_str formats"

subsection \<open>get_published_after\<close>

text \<open>\<open>utcnow()\<close> reads the clock; the model takes the reading as the argument \<open>now\<close>.\<close>

definition get_published_after :: "datetime \<Rightarrow> string \<Rightarrow> exn + string" where
  "get_published_after now time_span =
     (let delta = (if time_span = ''1 Week'' then timedelta_new 7 0 0
                   else if time_span = ''1 Month'' then timedelta_new 30 0 0
                   else if time_span = ''6 Months'' then timedelta_new 180 0 0
                   else timedelta_new 7 0 0)
      in case datetime_sub now delta of
           Inl e \<Rightarrow> Inl e
         | Inr t \<Rightarrow> Inr (isoformat t (CHR ''T'') @ ''Z''))"

subsection \<open>The API responses\<close>

text \<open>
  A response is decoded JSON: a dictionary whose keys may be absent. A field read with
  \<open>.get\<close> is \<open>None\<close> when absent; a field read with \<open>[...]\<close> raises \<open>KeyError\<close>.
\<close>

record snippet =
  publishedAt :: "string option"
  categoryId :: "string option"
  title :: "string option"

record item =
  snippet :: "snippet option"

record videos_response =
  items :: "item list option"

record category_snippet =
  cat_title :: "string option"

record category_item =
  cat_id :: "string option"
  cat_snippet :: "category_snippet option"

record categories_response =
  cat_items :: "category_item list option"

text \<open>
  The environment of one run: the clock, and what the two remote calls do for a given
  argument (\<open>regionCode\<close> of the listing, \<open>id\<close> of the category lookup): return a
  response or raise.
\<close>

record env =
  utcnow :: datetime
  videos_list :: "string \<Rightarrow> exn + videos_response"
  videoCategories_list :: "string \<Rightarrow> exn + categories_response"

record topic_entry =
  topic :: string
  comment :: string
  videos :: "string list"

subsection \<open>The loops of get_trending_topics\<close>

text \<open>Lines 74 to 81: keep the items published at or after the threshold.\<close>

fun filter_loop :: "item list \<Rightarrow> datetime \<Rightarrow> item list \<Rightarrow> exn + item list" where
  "filter_loop [] threshold_date filtered_items = Inr filtered_items"
| "filter_loop (it # its) threshold_date filtered_items =
     (case snippet it of
        None \<Rightarrow> Inl (key_error ''snippet'')
      | Some sn \<Rightarrow>
          (case parse_iso_date (publishedAt sn) of
             Inl e \<Rightarrow> filter_loop its threshold_date filtered_items
           | Inr video_date \<Rightarrow>
               if datetime_ge video_date threshold_date
               then filter_loop its threshold_date (filtered_items @ [it])
               else filter_loop its threshold_date filtered_items))"

text \<open>Truth value of a field that is a text or \<open>None\<close>.\<close>

definition truthy :: "string option \<Rightarrow> bool" where
  "truthy v = (case v of None \<Rightarrow> False | Some s \<Rightarrow> s \<noteq> [])"

text \<open>
  A \<open>Counter\<close> is a dictionary, which keeps its keys in the order of their first
  insertion: \<open>c[k] += 1\<close> updates a present key in place and appends an absent one.
\<close>

fun counter_incr :: "(string \<times> nat) list \<Rightarrow> string \<Rightarrow> (string \<times> nat) list" where
  "counter_incr [] k = [(k, 1)]"
| "counter_incr ((k', n) # c) k =
     (if k' = k then (k', n + 1) # c else (k', n) # counter_incr c k)"

text \<open>
  \<open>defaultdict(list)\<close>: \<open>d[k].append(v)\<close> appends to the list of a present key and
  gives an absent key the list \<open>[v]\<close>. A dictionary is the list of its entries in
  insertion order; \<open>d.get(k, dflt)\<close> and \<open>d[k] = v\<close> are \<open>dict_get\<close> and \<open>dict_set\<close>.
\<close>

fun append_to :: "(string \<times> string list) list \<Rightarrow> string \<Rightarrow> string \<Rightarrow> (string \<times> string list) list" where
  "append_to [] k v = [(k, [v])]"
| "append_to ((k', l) # d) k v =
     (if k' = k then (k', l @ [v]) # d else (k', l) # append_to d k v)"

definition dict_get :: "('k \<times> 'v) list \<Rightarrow> 'k \<Rightarrow> 'v \<Rightarrow> 'v" where
  "dict_get d k dflt = (case map_of d k of None \<Rightarrow> dflt | Some v \<Rightarrow> v)"

fun dict_set :: "('k \<times> 'v) list \<Rightarrow> 'k \<Rightarrow> 'v \<Rightarrow> ('k \<times> 'v) list" where
  "dict_set [] k v = [(k, v)]"
| "dict_set ((k', v') # d) k v =
     (if k' = k then (k', v) # d else (k', v') # dict_set d k v)"

definition empty_snippet :: snippet where
  "empty_snippet = \<lparr>publishedAt = None, categoryId = None, title = None\<rparr>"

text \<open>Lines 91 to 97: count the items of each category and collect their titles.\<close>

fun group_loop ::
  "item list \<Rightarrow> (string \<times> nat) list \<times> (string \<times> string list) list \<Rightarrow>
     (string \<times> nat) list \<times> (string \<times> string list) list" where
  "group_loop [] acc = acc"
| "group_loop (it # its) (category_counter, category_videos) =
     (let sn = (case snippet it of None \<Rightarrow> empty_snippet | Some s \<Rightarrow> s) in
      if truthy (categoryId sn) \<and> truthy (title sn)
      then group_loop its
             (counter_incr category_counter (the (categoryId sn)),
              append_to category_videos (the (categoryId sn)) (the (title sn)))
      else group_loop its (category_counter, category_videos))"

text \<open>
  \<open>Counter.most_common(n)\<close> is \<open>heapq.nlargest(n, items, key=count)\<close>, which equals
  \<open>sorted(items, key=count, reverse=True)[:n]\<close>: a stable sort by falling count.
\<close>

definition most_common :: "nat \<Rightarrow> (string \<times> nat) list \<Rightarrow> (string \<times> nat) list" where
  "most_common n c = take n (sort_key (\<lambda>kv. - int (snd kv)) c)"

text \<open>\<open>list(dict(pairs).keys())\<close>: the keys in the order of their first occurrence.\<close>

definition dict_keys :: "(string \<times> nat) list \<Rightarrow> string list" where
  "dict_keys ps = rev (remdups (rev (map fst ps)))"

fun join :: "string \<Rightarrow> string list \<Rightarrow> string" where
  "join sep [] = []"
| "join sep [x] = x"
| "join sep (x # y # ys) = x @ sep @ join sep (y # ys)"

text \<open>Lines 117 to 121: the names of the categories the lookup returned.\<close>

fun mapping_loop ::
  "category_item list \<Rightarrow> (string \<times> string) list \<Rightarrow> exn + (string \<times> string) list" where
  "mapping_loop [] category_mapping = Inr category_mapping"
| "mapping_loop (it # its) category_mapping =
     (case cat_id it of
        None \<Rightarrow> Inl (key_error ''id'')
      | Some cid \<Rightarrow>
          (case cat_snippet it of
             None \<Rightarrow> Inl (key_error ''snippet'')
           | Some sn \<Rightarrow>
               (case cat_title sn of
                  None \<Rightarrow> Inl (key_error ''title'')
                | Some t \<Rightarrow> mapping_loop its (dict_set category_mapping cid t))))"

text \<open>Lines 125 to 129: one topic for a selected category.\<close>

definition make_topic ::
  "(string \<times> string) list \<Rightarrow> (string \<times> string list) list \<Rightarrow> string \<times> nat \<Rightarrow> topic_entry" where
  "make_topic category_mapping category_videos p =
     (case p of (cid, count) \<Rightarrow>
        let cat_name = dict_get category_mapping cid ''Unknown'' in
        \<lparr>topic = cat_name,
         comment = ''There are '' @ str_nat count @ '' popular videos trending in the '' @
                   [CHR 0x27] @ cat_name @ [CHR 0x27] @ '' category during this period.'',
         videos = dict_get category_videos cid []\<rparr>)"

subsection \<open>get_trending_topics\<close>

text \<open>
  The function returns a list of topics and writes messages to the page, or an
  exception leaves it. It is modelled in two parts, cut before the second remote call.

  Lines 45 to 104: up to the selection of the top categories. The result is either what
  the function returns early, or the selected categories with the collected titles.
\<close>

definition select_categories ::
  "env \<Rightarrow> string \<Rightarrow> string \<Rightarrow>
     exn + ((topic_entry list \<times> ui_message list) +
            ((string \<times> nat) list \<times> (string \<times> string list) list))" where
  "select_categories e time_span region =
     (case get_published_after (utcnow e) time_span of
        Inl ex \<Rightarrow> Inl ex
      | Inr published_after \<Rightarrow>
          let region_code = (if region = ''Brazil'' then ''BR'' else ''US'') in
          (case videos_list e region_code of
             Inl ex \<Rightarrow>
               Inr (Inl ([], [St_error (''Error fetching trending videos: '' @ exn_str ex)]))
           | Inr trending_response \<Rightarrow>
               let its = (case items trending_response of None \<Rightarrow> [] | Some l \<Rightarrow> l) in
               if its = []
               then Inr (Inl ([], [St_info ''No trending videos found for the selected region.'']))
               else
                 (case parse_iso_date (Some published_after) of
                    Inl ex \<Rightarrow>
                      Inr (Inl ([], [St_error (''Error parsing threshold date: '' @ exn_str ex)]))
                  | Inr threshold_date \<Rightarrow>
                      (case filter_loop its threshold_date [] of
                         Inl ex \<Rightarrow> Inl ex
                       | Inr filtered_items \<Rightarrow>
                           if filtered_items = []
                           then Inr (Inl ([], [St_info
                                  ''No trending videos found for the selected time span and region.'']))
                           else
                             (case group_loop filtered_items ([], []) of
                                (category_counter, category_videos) \<Rightarrow>
                                  if category_counter = []
                                  then Inr (Inl ([], [St_info
                                         ''No category information found for the videos.'']))
                                  else Inr (Inr (most_common 10 category_counter,
                                                 category_videos)))))))"

text \<open>Lines 106 to 131: the category lookup and the assembly of the report.\<close>

definition assemble_report ::
  "env \<Rightarrow> (string \<times> nat) list \<Rightarrow> (string \<times> string list) list \<Rightarrow>
     exn + (topic_entry list \<times> ui_message list)" where
  "assemble_report e top_categories category_videos =
     (let category_ids_list = dict_keys top_categories in
      case videoCategories_list e (join '','' category_ids_list) of
        Inl ex \<Rightarrow> Inr ([], [St_error (''Error fetching category details: '' @ exn_str ex)])
      | Inr categories_response \<Rightarrow>
          (case mapping_loop
                  (case cat_items categories_response of None \<Rightarrow> [] | Some l \<Rightarrow> l) [] of
             Inl ex \<Rightarrow> Inl ex
           | Inr category_mapping \<Rightarrow>
               Inr (map (make_topic category_mapping category_videos) top_categories, [])))"

definition get_trending_topics ::
  "env \<Rightarrow> string \<Rightarrow> string \<Rightarrow> exn + (topic_entry list \<times> ui_message list)" where
  "get_trending_topics e time_span region =
     (case select_categories e time_span region of
        Inl ex \<Rightarrow> Inl ex
      | Inr (Inl early) \<Rightarrow> Inr early
      | Inr (Inr (top_categories, category_videos)) \<Rightarrow>
          assemble_report e top_categories category_videos)"

section \<open>What the specification speaks of\<close>

text \<open>
  The terms of the specification, defined on their own so that the statements below
  compare them with what the loops compute.

  A record is counted by the aggregator when it has a category id and a title, both
  non-empty; \<open>category_of\<close> and \<open>title_of\<close> read them.
\<close>

definition countable :: "item \<Rightarrow> bool" where
  "countable it = (case snippet it of None \<Rightarrow> False | Some sn \<Rightarrow> truthy (categoryId sn) \<and> truthy (title sn))"

definition category_of :: "item \<Rightarrow> string" where
  "category_of it = (case snippet it of None \<Rightarrow> [] | Some sn \<Rightarrow> str_of (categoryId sn))"

definition title_of :: "item \<Rightarrow> string" where
  "title_of it = (case snippet it of None \<Rightarrow> [] | Some sn \<Rightarrow> str_of (title sn))"

text \<open>The distinct elements of a list, in the order of their first occurrence.\<close>

fun first_seen :: "string list \<Rightarrow> string list" where
  "first_seen [] = []"
| "first_seen (k # ks) = k # removeAll k (first_seen ks)"

text \<open>The comment of a topic, as the specification writes it.\<close>

definition spec_comment :: "nat \<Rightarrow> string \<Rightarrow> string" where
  "spec_comment count name =
     ''There are '' @ str_nat count @ '' popular videos trending in the '' @ [CHR 0x27] @ name @
     [CHR 0x27] @ '' category during this period.''"

text \<open>
  The invariant of the aggregation loop: the counter and the collected titles have the
  same categories in the same order, and the titles of a category are as many as its
  count.
\<close>

definition consistent :: "(string \<times> nat) list \<Rightarrow> (string \<times> string list) list \<Rightarrow> bool" where
  "consistent cc cv = (distinct (map fst cc) \<and> cc = map (\<lambda>kl. (fst kl, length (snd kl))) cv)"

text \<open>
  A record is recent when its publish timestamp parses under one of the two formats to
  a time at or after the cutoff.
\<close>

definition published_at :: "item \<Rightarrow> string option" where
  "published_at it = (case snippet it of None \<Rightarrow> None | Some sn \<Rightarrow> publishedAt sn)"

definition recent :: "datetime \<Rightarrow> item \<Rightarrow> bool" where
  "recent cutoff it =
     (\<exists>t. (strptime (published_at it) (formats ! 0) = Inr t \<or>
           strptime (published_at it) (formats ! 1) = Inr t) \<and> datetime_ge t cutoff)"

section \<open>An example run\<close>

text \<open>
  A clock reading and two remote responses: four videos, of which the third is older
  than a week, and a category lookup that knows category 10 only.
\<close>

definition video_item :: "string \<Rightarrow> string \<Rightarrow> string \<Rightarrow> item" where
  "video_item c t p = \<lparr>snippet = Some \<lparr>publishedAt = Some p, categoryId = Some c, title = Some t\<rparr>\<rparr>"

definition example_env :: env where
  "example_env =
     \<lparr>utcnow = \<lparr>year = 2024, month = 3, day = 5, hour = 10, minute = 20, second = 30,
                 microsecond = 12\<rparr>,
      videos_list = (\<lambda>region_code. Inr \<lparr>items = Some
        [video_item ''10'' ''A'' ''2024-03-05T10:20:30Z'',
         video_item ''10'' ''B'' ''2024-03-05T09:00:00Z'',
         video_item ''20'' ''C'' ''2024-01-25T10:20:30Z'',
         video_item ''22'' ''D'' ''2024-03-01T08:00:00.5Z'']\<rparr>),
      videoCategories_list = (\<lambda>ids. Inr \<lparr>cat_items = Some
        [\<lparr>cat_id = Some ''10'', cat_snippet = Some \<lparr>cat_title = Some ''Music''\<rparr>\<rparr>]\<rparr>)\<rparr>"

section \<open>Auxiliary functions\<close>

text \<open>
  The decimal digits of a number in a field of fixed width: what \<open>"%02d"\<close> and
  \<open>"%04d"\<close> print for the numbers that fit the field.
\<close>

fun digits_fixed :: "nat \<Rightarrow> nat \<Rightarrow> string" where
  "digits_fixed 0 n = []"
| "digits_fixed (Suc k) n = digits_fixed k (n div 10) @ [digit_char (n mod 10)]"

text \<open>
  Whether one of the two-character alternatives of a directive's regular expression
  matches two given characters.
\<close>

fun lead2 :: "char_class list list \<Rightarrow> char \<Rightarrow> char \<Rightarrow> bool" where
  "lead2 [] c1 c2 = False"
| "lead2 (a # as) c1 c2 =
     (case a of
        [k1, k2] \<Rightarrow> (class_match k1 c1 \<and> class_match k2 c2) \<or> lead2 as c1 c2
      | _ \<Rightarrow> False)"

text \<open>The date and time of day that both outputs of \<open>isoformat\<close> start with.\<close>

definition iso_date_time :: "datetime \<Rightarrow> string \<Rightarrow> string" where
  "iso_date_time t rest =
     digits_fixed 4 (nat (year t)) @ CHR ''-'' # digits_fixed 2 (nat (month t)) @ CHR ''-'' #
     digits_fixed 2 (nat (day t)) @ CHR ''T'' # digits_fixed 2 (nat (hour t)) @ CHR '':'' #
     digits_fixed 2 (nat (minute t)) @ CHR '':'' # digits_fixed 2 (nat (second t)) @ rest"

text \<open>
  The month and the day of the \<open>n\<close>-th day of a year, counted from 0, as the last lines
  of \<open>_ord2ymd\<close> compute them, and what holds of them.
\<close>

definition month_day :: "bool \<Rightarrow> int \<Rightarrow> int \<times> int" where
  "month_day leapyear n =
     (let mo = (n + 50) div 32;
          preceding = DAYS_BEFORE_MONTH ! nat mo + (if mo > 2 \<and> leapyear then 1 else 0)
      in if preceding > n
         then let mo = mo - 1;
                  preceding = preceding - (DAYS_IN_MONTH ! nat mo + (if mo = 2 \<and> leapyear then 1 else 0))
              in (mo, n - preceding + 1)
         else (mo, n - preceding + 1))"

definition month_day_ok :: "bool \<Rightarrow> int \<Rightarrow> bool" where
  "month_day_ok leapyear n =
     (case month_day leapyear n of (m, d) \<Rightarrow>
        1 \<le> m \<and> m \<le> 12 \<and> 1 \<le> d \<and>
        d \<le> DAYS_IN_MONTH ! nat m + (if m = 2 \<and> leapyear then 1 else 0) \<and>
        DAYS_BEFORE_MONTH ! nat m + (if m > 2 \<and> leapyear then 1 else 0) + d = n + 1)"

text \<open>
  The mapping table of the specification: the days of each time span, 7 for an unknown
  selection.
\<close>

definition span_days :: "string \<Rightarrow> int" where
  "span_days time_span =
     (if time_span = ''1 Week'' then 7 else if time_span = ''1 Month'' then 30
      else if time_span = ''6 Months'' then 180 else 7)"

text \<open>
  The datetime \<open>k\<close> days before \<open>t\<close>, at the same time of day. Lemma
  \<open>datetime_sub_days\<close> shows that \<open>t - timedelta(days=k)\<close> returns it.
\<close>

definition days_earlier :: "datetime \<Rightarrow> int \<Rightarrow> datetime" where
  "days_earlier t k =
     (case ord2ymd (toordinal t - k) of
        (y, m, d) \<Rightarrow> t\<lparr>year := y, month := m, day := d\<rparr>)"

section \<open>The aggregation loop\<close>

lemma truthy_the: "truthy v \<Longrightarrow> the v = str_of v"
  by (cases v) (simp_all add: truthy_def str_of_def)

lemma not_truthy_empty [simp]: "\<not> truthy (categoryId empty_snippet)"
  by (simp add: truthy_def empty_snippet_def)

lemma group_loop_step:
  "group_loop (it # its) (cc, cv) =
     (if countable it
      then group_loop its (counter_incr cc (category_of it), append_to cv (category_of it) (title_of it))
      else group_loop its (cc, cv))"
  by (cases "snippet it") (simp_all add: countable_def category_of_def title_of_def truthy_the Let_def)

lemma sum_counter_incr: "sum_list (map snd (counter_incr c k)) = sum_list (map snd c) + 1"
  by (induction c k rule: counter_incr.induct) simp_all

lemma keys_counter_incr:
  "map fst (counter_incr c k) = (if k \<in> fst ` set c then map fst c else map fst c @ [k])"
  by (induction c k rule: counter_incr.induct) auto

lemma group_loop_sum:
  "sum_list (map snd (fst (group_loop its (cc, cv)))) = sum_list (map snd cc) + length (filter countable its)"
proof (induction its arbitrary: cc cv)
  case Nil
  show ?case by simp
next
  case (Cons it its)
  show ?case
    unfolding group_loop_step
    by (simp add: Cons.IH sum_counter_incr)
qed

lemma first_seen_filter: "first_seen (filter P ks) = filter P (first_seen ks)"
proof (induction ks)
  case Nil
  show ?case by simp
next
  case (Cons k ks)
  have rm: "\<And>x ys. removeAll x (filter P ys) = filter P (removeAll x ys)"
    by (simp add: removeAll_filter_not_eq conj_commute)
  have drop: "\<not> P k \<Longrightarrow> filter P (removeAll k (first_seen ks)) = filter P (first_seen ks)"
    by (induction "first_seen ks") (auto simp: removeAll_filter_not_eq intro: filter_cong)
  show ?case
    using Cons.IH drop by (simp add: rm)
qed

lemma removeAll_as_filter: "removeAll k xs = filter (\<lambda>x. x \<noteq> k) xs"
  by (induction xs) auto

lemma filter_not_insert:
  "filter (\<lambda>x. x \<notin> insert k S) xs = filter (\<lambda>x. x \<noteq> k) (filter (\<lambda>x. x \<notin> S) xs)"
  by (induction xs) auto

lemma keyset_counter_incr: "fst ` set (counter_incr c k) = insert k (fst ` set c)"
proof -
  have "set (map fst (counter_incr c k)) = insert k (set (map fst c))"
    unfolding keys_counter_incr by auto
  then show ?thesis by simp
qed

lemma keys_foldl_counter_incr:
  "map fst (foldl counter_incr c ks) =
     map fst c @ first_seen (filter (\<lambda>k. k \<notin> fst ` set c) ks)"
proof (induction ks arbitrary: c)
  case Nil
  show ?case by simp
next
  case (Cons k ks)
  let ?S = "fst ` set c"
  have IH: "map fst (foldl counter_incr (counter_incr c k) ks) =
      map fst (counter_incr c k) @ first_seen (filter (\<lambda>x. x \<notin> insert k ?S) ks)"
    using Cons.IH [of "counter_incr c k"] by (simp only: keyset_counter_incr)
  show ?case
  proof (cases "k \<in> ?S")
    case True
    then have "insert k ?S = ?S" by auto
    with IH True show ?thesis by (simp add: keys_counter_incr)
  next
    case False
    have "map fst (foldl counter_incr c (k # ks)) =
        (map fst c @ [k]) @ first_seen (filter (\<lambda>x. x \<noteq> k) (filter (\<lambda>x. x \<notin> ?S) ks))"
      using IH False by (simp only: foldl_Cons keys_counter_incr filter_not_insert if_False)
    also have "\<dots> = map fst c @ k # removeAll k (first_seen (filter (\<lambda>x. x \<notin> ?S) ks))"
      by (simp only: first_seen_filter removeAll_as_filter append_assoc append_Cons append_Nil)
    also have "\<dots> = map fst c @ first_seen (filter (\<lambda>x. x \<notin> ?S) (k # ks))"
      using False by simp
    finally show ?thesis .
  qed
qed

lemma group_loop_counter:
  "fst (group_loop its (cc, cv)) = foldl counter_incr cc (map category_of (filter countable its))"
proof (induction its arbitrary: cc cv)
  case Nil
  show ?case by simp
next
  case (Cons it its)
  show ?case unfolding group_loop_step by (simp add: Cons.IH)
qed

lemma distinct_counter_incr: "distinct (map fst c) \<Longrightarrow> distinct (map fst (counter_incr c k))"
  by (simp add: keys_counter_incr)

lemma counter_incr_append_to:
  "counter_incr (map (\<lambda>kl. (fst kl, length (snd kl))) cv) k =
     map (\<lambda>kl. (fst kl, length (snd kl))) (append_to cv k t)"
  by (induction cv k t rule: append_to.induct) simp_all

lemma consistent_step:
  assumes "consistent cc cv"
  shows "consistent (counter_incr cc k) (append_to cv k t)"
proof -
  from assms have both: "distinct (map fst cc) \<and> cc = map (\<lambda>kl. (fst kl, length (snd kl))) cv"
    unfolding consistent_def .
  from both have eq: "cc = map (\<lambda>kl. (fst kl, length (snd kl))) cv" by (rule conjunct2)
  from both have d: "distinct (map fst cc)" by (rule conjunct1)
  have "counter_incr cc k = map (\<lambda>kl. (fst kl, length (snd kl))) (append_to cv k t)"
    unfolding eq by (rule counter_incr_append_to)
  moreover have "distinct (map fst (counter_incr cc k))"
    using d by (rule distinct_counter_incr)
  ultimately show ?thesis
    unfolding consistent_def by (rule conjI [rotated])
qed

lemma consistent_empty: "consistent [] []"
  by (simp add: consistent_def)

lemma group_loop_consistent:
  "consistent cc cv \<Longrightarrow> consistent (fst (group_loop its (cc, cv))) (snd (group_loop its (cc, cv)))"
proof (induction its arbitrary: cc cv)
  case Nil
  then show ?case by simp
next
  case (Cons it its)
  show ?case
    unfolding group_loop_step
    using Cons.IH Cons.prems consistent_step by simp
qed

lemma consistent_lookup:
  assumes "consistent cc cv" and "(k, n) \<in> set cc"
  shows "length (dict_get cv k []) = n"
proof -
  from assms(1) have both: "distinct (map fst cc) \<and> cc = map (\<lambda>kl. (fst kl, length (snd kl))) cv"
    unfolding consistent_def .
  from both have eq: "cc = map (\<lambda>kl. (fst kl, length (snd kl))) cv" by (rule conjunct2)
  from both have dc: "distinct (map fst cc)" by (rule conjunct1)
  have "map fst cc = map fst cv"
    unfolding eq by (simp add: comp_def)
  with dc have d: "distinct (map fst cv)" by simp
  from assms(2) obtain l where l: "(k, l) \<in> set cv" "length l = n"
    unfolding eq by auto
  from d l(1) have "map_of cv k = Some l" by simp
  with l(2) show ?thesis by (simp add: dict_get_def)
qed

lemma set_most_common: "set (most_common n c) \<subseteq> set c"
  unfolding most_common_def by (metis set_sort set_take_subset)

lemma most_common_length: "length (most_common n c) \<le> n"
  by (simp add: most_common_def)

lemma most_common_sorted: "sorted_wrt (\<lambda>a b. snd b \<le> snd a) (most_common n c)"
proof -
  have "sorted (map (\<lambda>kv. - int (snd kv)) (sort_key (\<lambda>kv. - int (snd kv)) c))"
    by (rule sorted_sort_key)
  then have "sorted_wrt (\<lambda>a b. snd b \<le> snd a) (sort_key (\<lambda>kv. - int (snd kv)) c)"
    by (simp add: sorted_map)
  then show ?thesis
    unfolding most_common_def by (rule sorted_wrt_take)
qed

lemma most_common_stable:
  "subseq (map fst (filter (\<lambda>kv. snd kv = n) (most_common m c))) (map fst c)"
proof -
  let ?f = "\<lambda>kv::string \<times> nat. - int (snd kv)"
  let ?P = "\<lambda>kv::string \<times> nat. snd kv = n"
  have P: "?P = (\<lambda>kv. ?f kv = - int n)" by auto
  have "filter ?P (sort_key ?f c) = filter ?P c"
    unfolding P by (rule sort_key_stable)
  moreover have "subseq (take m (sort_key ?f c)) (sort_key ?f c)"
    by (metis append_take_drop_id list_emb_append2 subseq_order.order_refl subseq_order.dual_order.refl list_emb_prefix)
  ultimately have "subseq (filter ?P (most_common m c)) (filter ?P c)"
    unfolding most_common_def by (metis subseq_filter)
  then have "subseq (filter ?P (most_common m c)) c"
    by (meson subseq_filter_left subseq_order.order_trans)
  then show ?thesis by (rule subseq_map)
qed

lemma match_classes_sound:
  "match_classes ks s = Some (m, r) \<Longrightarrow> s = m @ r \<and> list_all2 class_match ks m"
proof (induction ks s arbitrary: m r rule: match_classes.induct)
  case (1 s)
  then show ?case by simp
next
  case (2 k ks)
  then show ?case by simp
next
  case (3 k ks c s)
  then show ?case by (auto split: if_splits option.splits)
qed

lemma re_match_sound:
  "re_match gs s = Some (ms, r) \<Longrightarrow>
     s = concat ms @ r \<and> list_all2 (\<lambda>g m. \<exists>a \<in> set g. list_all2 class_match a m) gs ms"
proof (induction gs s arbitrary: ms r rule: re_match.induct)
  case (1 s)
  then show ?case by simp
next
  case (2 gs s)
  then show ?case by simp
next
  case (3 a as gs s)
  show ?case
  proof (cases "match_classes a s")
    case None
    with 3 show ?thesis by (auto simp: list_all2_Cons1)
  next
    case (Some mr)
    obtain m r0 where mr: "mr = (m, r0)" by (cases mr)
    note hd = match_classes_sound [OF Some [unfolded mr]]
    show ?thesis
    proof (cases "re_match gs r0")
      case None
      with 3(3)[OF Some [unfolded mr] refl] 3(4) Some mr show ?thesis
        by (auto simp: list_all2_Cons1)
    next
      case (Some msr)
      obtain ms' r' where msr: "msr = (ms', r')" by (cases msr)
      from 3(2)[OF \<open>match_classes a s = Some mr\<close> [unfolded mr] refl Some [unfolded msr]] hd
        3(4) \<open>match_classes a s = Some mr\<close> mr Some msr
      show ?thesis by auto
    qed
  qed
qed

section \<open>Claims about the aggregator\<close>

text \<open>
  C2. For every list of filtered records, the categories the aggregator selects are at
  most 10, their counts never rise along the list, and the selected categories of any
  one count \<open>n\<close> stand in the order in which the records first showed them.
\<close>

theorem aggregator_top10_ordered:
  "length (most_common 10 (fst (group_loop its ([], [])))) \<le> 10 \<and>
   sorted_wrt (\<lambda>a b. snd b \<le> snd a) (most_common 10 (fst (group_loop its ([], [])))) \<and>
   subseq (map fst (filter (\<lambda>kv. snd kv = n) (most_common 10 (fst (group_loop its ([], []))))))
          (first_seen (map category_of (filter countable its)))"
proof (intro conjI)
  show "length (most_common 10 (fst (group_loop its ([], [])))) \<le> 10"
    by (rule most_common_length)
  show "sorted_wrt (\<lambda>a b. snd b \<le> snd a) (most_common 10 (fst (group_loop its ([], []))))"
    by (rule most_common_sorted)
  have keys: "map fst (fst (group_loop its ([], []))) =
      first_seen (map category_of (filter countable its))"
    unfolding group_loop_counter keys_foldl_counter_incr by simp
  show "subseq (map fst (filter (\<lambda>kv. snd kv = n) (most_common 10 (fst (group_loop its ([], []))))))
          (first_seen (map category_of (filter countable its)))"
    using most_common_stable [of n 10 "fst (group_loop its ([], []))"]
    unfolding keys .
qed

text \<open>
  C3, as the code has it. The counts of all categories, before the cut to 10, add up to
  the number of filtered records that have a non-empty category id and a non-empty
  title: the loop skips the others.
\<close>

theorem counts_sum_to_counted_records:
  "sum_list (map snd (fst (group_loop its ([], [])))) = length (filter countable its)"
  by (simp add: group_loop_sum)

text \<open>
  C3 as stated fails: a record without a category id passes the recency filter and is
  not counted, so the counts add up to 0 for 1 filtered record.
\<close>

theorem counts_sum_counterexample:
  "filter_loop [\<lparr>snippet = Some \<lparr>publishedAt = Some ''2024-03-05T10:20:30Z'', categoryId = None,
                       title = Some ''A''\<rparr>\<rparr>] \<lparr>year = 2024, month = 3, day = 1, hour = 0, minute = 0, second = 0, microsecond = 0\<rparr> [] = Inr [\<lparr>snippet = Some \<lparr>publishedAt = Some ''2024-03-05T10:20:30Z'', categoryId = None,
                       title = Some ''A''\<rparr>\<rparr>] \<and>
   sum_list (map snd (fst (group_loop [\<lparr>snippet = Some \<lparr>publishedAt = Some ''2024-03-05T10:20:30Z'', categoryId = None,
                       title = Some ''A''\<rparr>\<rparr>] ([], [])))) \<noteq> length [\<lparr>snippet = Some \<lparr>publishedAt = Some ''2024-03-05T10:20:30Z'', categoryId = None,
                       title = Some ''A''\<rparr>\<rparr>]"
  by code_simp

section \<open>The report\<close>

lemma select_categories_selected:
  assumes "select_categories e ts r = Inr (Inr (tc, cv))"
  shows "\<exists>filtered cc. group_loop filtered ([], []) = (cc, cv) \<and> tc = most_common 10 cc \<and> cc \<noteq> []"
  using assms unfolding select_categories_def Let_def
  by (auto split: sum.splits if_splits prod.splits)

lemma select_categories_early:
  assumes "select_categories e ts r = Inr (Inl (tps, ms))"
  shows "tps = []"
  using assms unfolding select_categories_def Let_def
  by (auto split: sum.splits if_splits prod.splits)

lemma assemble_report_cases:
  assumes "assemble_report e tc cv = Inr (topics, msgs)"
  shows "topics = [] \<or>
     (\<exists>resp cm. videoCategories_list e (join '','' (dict_keys tc)) = Inr resp \<and>
        mapping_loop (case cat_items resp of None \<Rightarrow> [] | Some l \<Rightarrow> l) [] = Inr cm \<and>
        topics = map (make_topic cm cv) tc \<and> msgs = [])"
  using assms unfolding assemble_report_def Let_def
  by (auto split: sum.splits)

lemma make_topic_comment:
  "comment (make_topic cm cv (k, n)) = spec_comment n (topic (make_topic cm cv (k, n)))"
  by (simp add: make_topic_def spec_comment_def Let_def)

lemma make_topic_videos: "videos (make_topic cm cv (k, n)) = dict_get cv k []"
  by (simp add: make_topic_def Let_def)

lemma selected_consistent:
  assumes "select_categories e ts r = Inr (Inr (tc, cv))" and "(k, n) \<in> set tc"
  shows "length (dict_get cv k []) = n"
proof -
  from select_categories_selected [OF assms(1)] obtain filtered cc where
    g: "group_loop filtered ([], []) = (cc, cv)" and tc: "tc = most_common 10 cc"
    by blast
  from group_loop_consistent [OF consistent_empty, of filtered] g have "consistent cc cv" by simp
  moreover from assms(2) tc set_most_common have "(k, n) \<in> set cc" by blast
  ultimately show ?thesis by (rule consistent_lookup)
qed

subsection \<open>The example run, evaluated\<close>

lemma example_selected:
  "select_categories example_env ''1 Week'' ''Brazil'' =
     Inr (Inr ([(''10'', 2), (''22'', 1)], [(''10'', [''A'', ''B'']), (''22'', [''D''])]))"
  by code_simp

lemma example_report:
  "get_trending_topics example_env ''1 Week'' ''Brazil'' =
     Inr ([\<lparr>topic = ''Music'',
            comment = ''There are 2 popular videos trending in the '' @ [CHR 0x27] @ ''Music'' @
                      [CHR 0x27] @ '' category during this period.'',
            videos = [''A'', ''B'']\<rparr>,
           \<lparr>topic = ''Unknown'',
            comment = ''There are 1 popular videos trending in the '' @ [CHR 0x27] @ ''Unknown'' @
                      [CHR 0x27] @ '' category during this period.'',
            videos = [''D'']\<rparr>], [])"
  by code_simp

lemma example_assemble:
  "assemble_report example_env [(''10'', 2), (''22'', 1)] [(''10'', [''A'', ''B'']), (''22'', [''D''])] =
     Inr ([\<lparr>topic = ''Music'',
            comment = ''There are 2 popular videos trending in the '' @ [CHR 0x27] @ ''Music'' @
                      [CHR 0x27] @ '' category during this period.'',
            videos = [''A'', ''B'']\<rparr>,
           \<lparr>topic = ''Unknown'',
            comment = ''There are 1 popular videos trending in the '' @ [CHR 0x27] @ ''Unknown'' @
                      [CHR 0x27] @ '' category during this period.'',
            videos = [''D'']\<rparr>], [])"
  by code_simp

subsection \<open>The category mapping\<close>

lemma map_of_dict_set: "map_of (dict_set d k v) = (map_of d)(k \<mapsto> v)"
  by (induction d k v rule: dict_set.induct) auto

lemma mapping_loop_other:
  "mapping_loop its m = Inr cm \<Longrightarrow> Some cid \<notin> cat_id ` set its \<Longrightarrow> map_of cm cid = map_of m cid"
proof (induction its m rule: mapping_loop.induct)
  case (1 m)
  then show ?case by simp
next
  case (2 it its m)
  from 2(2) obtain k sn t where k: "cat_id it = Some k" and sn: "cat_snippet it = Some sn"
    and t: "cat_title sn = Some t" and rest: "mapping_loop its (dict_set m k t) = Inr cm"
    by (auto split: option.splits)
  from 2(3) k have ne: "cid \<noteq> k" and notin: "Some cid \<notin> cat_id ` set its" by auto
  from 2(1) [OF k sn t rest notin] ne show ?case by (simp add: map_of_dict_set)
qed

subsection \<open>Decimal text\<close>

lemma digit_val_digit_char: "d < 10 \<Longrightarrow> digit_val (digit_char d) = int d"
proof -
  assume "d < 10"
  then have "(48 + d) mod 256 = 48 + d" by simp
  then have "(of_char (char_of (48 + d) :: char) :: nat) = 48 + d" by (simp only: of_char_of)
  then show ?thesis by (simp add: digit_val_def digit_char_def)
qed

lemma digits_int_snoc: "digits_int (s @ [c]) = 10 * digits_int s + digit_val c"
  by (simp add: digits_int_def)

lemma digits_int_str_nat: "digits_int (str_nat n) = int n"
proof (induction n rule: str_nat.induct)
  case (1 n)
  show ?case
  proof (cases "n < 10")
    case True
    then show ?thesis
      by (subst str_nat.simps) (simp add: digits_int_def digit_val_digit_char)
  next
    case False
    have "digits_int (str_nat n) = 10 * digits_int (str_nat (n div 10)) + digit_val (digit_char (n mod 10))"
      using False by (subst str_nat.simps) (simp add: digits_int_snoc)
    also have "\<dots> = 10 * int (n div 10) + int (n mod 10)"
      using 1 [OF False] by (simp add: digit_val_digit_char)
    also have "\<dots> = int n" by presburger
    finally show ?thesis .
  qed
qed

section \<open>Claims about the report\<close>

text \<open>
  C9. In every report the function returns, the count in the comment of a topic is the
  number of its titles: the comment is the template filled with the length of the
  topic's title list and the topic's name.
\<close>

theorem comment_count_is_number_of_titles:
  assumes "get_trending_topics e time_span region = Inr (topics, msgs)" and "t \<in> set topics"
  shows "comment t = spec_comment (length (videos t)) (topic t)"
proof (cases "select_categories e time_span region")
  case (Inl ex)
  with assms(1) show ?thesis by (simp add: get_trending_topics_def)
next
  case (Inr res)
  show ?thesis
  proof (cases res)
    case (Inl early)
    obtain tps ms where early: "early = (tps, ms)" by (cases early)
    from select_categories_early [OF Inr [unfolded Inl early]] have "tps = []" .
    with assms Inr Inl early show ?thesis by (simp add: get_trending_topics_def)
  next
    case (Inr sel)
    obtain tc cv where sel: "sel = (tc, cv)" by (cases sel)
    note s = \<open>select_categories e time_span region = Inr res\<close> [unfolded Inr sel]
    from assms(1) s have "assemble_report e tc cv = Inr (topics, msgs)"
      by (simp add: get_trending_topics_def)
    from assemble_report_cases [OF this] assms(2) obtain cm where
      topics: "topics = map (make_topic cm cv) tc" by auto
    with assms(2) obtain k n where kn: "(k, n) \<in> set tc" and t: "t = make_topic cm cv (k, n)"
      by auto
    from selected_consistent [OF s kn] show ?thesis
      unfolding t by (simp add: make_topic_comment make_topic_videos)
  qed
qed

text \<open>The example run returns two topics; the first has two titles and says so.\<close>

theorem comment_count_witness:
  "get_trending_topics example_env ''1 Week'' ''Brazil'' =
     Inr ([\<lparr>topic = ''Music'',
            comment = ''There are 2 popular videos trending in the '' @ [CHR 0x27] @ ''Music'' @
                      [CHR 0x27] @ '' category during this period.'',
            videos = [''A'', ''B'']\<rparr>,
           \<lparr>topic = ''Unknown'',
            comment = ''There are 1 popular videos trending in the '' @ [CHR 0x27] @ ''Unknown'' @
                      [CHR 0x27] @ '' category during this period.'',
            videos = [''D'']\<rparr>], []) \<and>
   ''There are 2 popular videos trending in the '' @ [CHR 0x27] @ ''Music'' @
     [CHR 0x27] @ '' category during this period.'' = spec_comment (length [''A'', ''B'']) ''Music''"
  using comment_count_is_number_of_titles [OF example_report, of
     "\<lparr>topic = ''Music'',
            comment = ''There are 2 popular videos trending in the '' @ [CHR 0x27] @ ''Music'' @
                      [CHR 0x27] @ '' category during this period.'',
            videos = [''A'', ''B'']\<rparr>"] example_report
  by simp

text \<open>
  C7. The comment of the \<open>i\<close>-th topic of a report is exactly the sentence of the
  specification, with the count of the \<open>i\<close>-th selected category written in decimal
  and the name of the topic between the quotes.
\<close>

theorem comment_text_exact:
  assumes "assemble_report e tc cv = Inr (topics, msgs)" and "i < length topics"
  shows "\<exists>cid count. tc ! i = (cid, count) \<and>
           comment (topics ! i) =
             ''There are '' @ str_nat count @ '' popular videos trending in the '' @ [CHR 0x27] @
             topic (topics ! i) @ [CHR 0x27] @ '' category during this period.'' \<and>
           digits_int (str_nat count) = int count"
proof -
  from assemble_report_cases [OF assms(1)] assms(2) obtain cm where
    topics: "topics = map (make_topic cm cv) tc" by auto
  obtain cid count where p: "tc ! i = (cid, count)" by (cases "tc ! i")
  from assms(2) topics have "topics ! i = make_topic cm cv (cid, count)"
    by (simp add: p)
  then show ?thesis
    using p by (simp add: make_topic_def Let_def digits_int_str_nat)
qed

text \<open>The second topic of the example run.\<close>

theorem comment_text_witness:
  "\<exists>cid count. [(''10'', 2), (''22'', 1)] ! 1 = (cid, count) \<and>
     ''There are 1 popular videos trending in the '' @ [CHR 0x27] @ ''Unknown'' @
        [CHR 0x27] @ '' category during this period.'' =
     ''There are '' @ str_nat count @ '' popular videos trending in the '' @ [CHR 0x27] @
        ''Unknown'' @ [CHR 0x27] @ '' category during this period.'' \<and>
     digits_int (str_nat count) = int count"
  using comment_text_exact [OF example_assemble, of 1] by simp

text \<open>
  C5. When the listing of trending videos is called and raises, and when the category
  lookup is called and raises, the function returns the empty list of topics, shows one
  error message that carries the text of the exception, and raises nothing.
  The listing is called once line 45 has returned; the lookup is called with the ids of
  the selected categories once the selection (lines 45 to 104) has produced them.
\<close>

theorem remote_failure_gives_empty_report:
  "(get_published_after (utcnow e) time_span = Inr published_after \<and>
    videos_list e (if region = ''Brazil'' then ''BR'' else ''US'') = Inl ex \<longrightarrow>
      get_trending_topics e time_span region =
        Inr ([], [St_error (''Error fetching trending videos: '' @ exn_str ex)])) \<and>
   (select_categories e time_span region = Inr (Inr (tc, cv)) \<and>
    videoCategories_list e (join '','' (dict_keys tc)) = Inl ex \<longrightarrow>
      get_trending_topics e time_span region =
        Inr ([], [St_error (''Error fetching category details: '' @ exn_str ex)]))"
  by (simp add: get_trending_topics_def select_categories_def assemble_report_def Let_def)

text \<open>The example run with a failing listing, and with a failing lookup.\<close>

theorem remote_failure_witness:
  "get_trending_topics
     (example_env\<lparr>videos_list := \<lambda>region_code. Inl (RemoteError ''quota exceeded'')\<rparr>)
     ''1 Week'' ''Brazil'' =
     Inr ([], [St_error (''Error fetching trending videos: '' @ ''quota exceeded'')]) \<and>
   get_trending_topics
     (example_env\<lparr>videoCategories_list := \<lambda>ids. Inl (RemoteError ''timed out'')\<rparr>)
     ''1 Week'' ''Brazil'' =
     Inr ([], [St_error (''Error fetching category details: '' @ ''timed out'')])"
proof -
  let ?ev = "example_env\<lparr>videos_list := \<lambda>region_code. Inl (RemoteError ''quota exceeded'')\<rparr>"
  let ?ec = "example_env\<lparr>videoCategories_list := \<lambda>ids. Inl (RemoteError ''timed out'')\<rparr>"
  have a1: "get_published_after (utcnow ?ev) ''1 Week'' = Inr ''2024-02-27T10:20:30.000012Z''"
    by code_simp
  have a2: "videos_list ?ev (if ''Brazil'' = ''Brazil'' then ''BR'' else ''US'') =
      Inl (RemoteError ''quota exceeded'')"
    by simp
  have b1: "select_categories ?ec ''1 Week'' ''Brazil'' =
      Inr (Inr ([(''10'', 2), (''22'', 1)], [(''10'', [''A'', ''B'']), (''22'', [''D''])]))"
    by code_simp
  have b2: "videoCategories_list ?ec (join '','' (dict_keys [(''10'', 2::nat), (''22'', 1)])) =
      Inl (RemoteError ''timed out'')"
    by simp
  from remote_failure_gives_empty_report [where e = ?ev and time_span = "''1 Week''"
      and region = "''Brazil''" and ex = "RemoteError ''quota exceeded''"
      and published_after = "''2024-02-27T10:20:30.000012Z''"]
    a1 a2
  have "get_trending_topics ?ev ''1 Week'' ''Brazil'' =
      Inr ([], [St_error (''Error fetching trending videos: '' @ exn_str (RemoteError ''quota exceeded''))])"
    by blast
  moreover
  from remote_failure_gives_empty_report [where e = ?ec and time_span = "''1 Week''"
      and region = "''Brazil''" and ex = "RemoteError ''timed out''"
      and tc = "[(''10'', 2), (''22'', 1)]" and cv = "[(''10'', [''A'', ''B'']), (''22'', [''D''])]"]
    b1 b2
  have "get_trending_topics ?ec ''1 Week'' ''Brazil'' =
      Inr ([], [St_error (''Error fetching category details: '' @ exn_str (RemoteError ''timed out''))])"
    by blast
  ultimately show ?thesis by simp
qed

text \<open>
  C6. When the lookup answers (all its entries having an id and a title) without an
  entry for a selected category, the report is returned with one topic per selected
  category, and the topic of that category is named Unknown and has the category's
  count in its comment and the category's titles.
\<close>

theorem unknown_category_reported:
  assumes "select_categories e time_span region = Inr (Inr (tc, cv))"
    and "videoCategories_list e (join '','' (dict_keys tc)) = Inr resp"
    and "mapping_loop (case cat_items resp of None \<Rightarrow> [] | Some l \<Rightarrow> l) [] = Inr cm"
    and "(cid, count) \<in> set tc"
    and "Some cid \<notin> cat_id ` set (case cat_items resp of None \<Rightarrow> [] | Some l \<Rightarrow> l)"
  shows "\<exists>topics. get_trending_topics e time_span region = Inr (topics, []) \<and>
           length topics = length tc \<and>
           \<lparr>topic = ''Unknown'', comment = spec_comment count ''Unknown'',
            videos = dict_get cv cid []\<rparr> \<in> set topics \<and>
           length (dict_get cv cid []) = count"
proof -
  have r: "get_trending_topics e time_span region = Inr (map (make_topic cm cv) tc, [])"
    using assms(1-3) by (simp add: get_trending_topics_def assemble_report_def Let_def)
  from mapping_loop_other [OF assms(3,5)] have "dict_get cm cid ''Unknown'' = ''Unknown''"
    by (simp add: dict_get_def)
  then have "make_topic cm cv (cid, count) =
      \<lparr>topic = ''Unknown'', comment = spec_comment count ''Unknown'', videos = dict_get cv cid []\<rparr>"
    by (simp add: make_topic_def spec_comment_def Let_def)
  with assms(4) have "\<lparr>topic = ''Unknown'', comment = spec_comment count ''Unknown'',
      videos = dict_get cv cid []\<rparr> \<in> set (map (make_topic cm cv) tc)"
    by (metis image_eqI list.set_map)
  with r selected_consistent [OF assms(1,4)] show ?thesis by simp
qed

text \<open>In the example run the lookup does not know category 22.\<close>

theorem unknown_category_witness:
  "\<exists>topics. get_trending_topics example_env ''1 Week'' ''Brazil'' = Inr (topics, []) \<and>
     length topics = length [(''10'', 2::nat), (''22'', 1)] \<and>
     \<lparr>topic = ''Unknown'', comment = spec_comment 1 ''Unknown'', videos = [''D'']\<rparr> \<in> set topics \<and>
     length [''D''] = (1::nat)"
proof -
  have a: "select_categories example_env ''1 Week'' ''Brazil'' =
      Inr (Inr ([(''10'', 2), (''22'', 1)], [(''10'', [''A'', ''B'']), (''22'', [''D''])]))"
    by (rule example_selected)
  have b: "videoCategories_list example_env (join '','' (dict_keys [(''10'', 2::nat), (''22'', 1)])) =
      Inr \<lparr>cat_items = Some [\<lparr>cat_id = Some ''10'', cat_snippet = Some \<lparr>cat_title = Some ''Music''\<rparr>\<rparr>]\<rparr>"
    by (simp add: example_env_def)
  have c: "mapping_loop (case cat_items \<lparr>cat_items = Some [\<lparr>cat_id = Some ''10'',
        cat_snippet = Some \<lparr>cat_title = Some ''Music''\<rparr>\<rparr>]\<rparr> of None \<Rightarrow> [] | Some l \<Rightarrow> l) [] =
      Inr [(''10'', ''Music'')]"
    by simp
  have d: "(''22'', 1::nat) \<in> set [(''10'', 2), (''22'', 1)]" by simp
  have e: "Some ''22'' \<notin> cat_id ` set (case cat_items \<lparr>cat_items = Some [\<lparr>cat_id = Some ''10'',
        cat_snippet = Some \<lparr>cat_title = Some ''Music''\<rparr>\<rparr>]\<rparr> of None \<Rightarrow> [] | Some l \<Rightarrow> l)"
    by simp
  from unknown_category_reported [OF a b c d e] show ?thesis
    by (simp add: dict_get_def)
qed

section \<open>The two formats of parse_iso_date\<close>

text \<open>
  A text that parses under the format without a fraction has no dot, and a text that
  parses under the format with a fraction has one: at most one of the two formats
  accepts a text, so the order in which the loop tries them does not matter.
\<close>

lemma pattern_frac:
  "pattern (formats ! 0) =
     Some [Directive Dir_Y, Literal (CHR ''-''), Directive Dir_m, Literal (CHR ''-''),
           Directive Dir_d, Literal (CHR ''T''), Directive Dir_H, Literal (CHR '':''),
           Directive Dir_M, Literal (CHR '':''), Directive Dir_S, Literal (CHR ''.''),
           Directive Dir_f, Literal (CHR ''Z'')]"
  by (simp add: formats_def directive_of_def)

lemma pattern_plain:
  "pattern (formats ! 1) =
     Some [Directive Dir_Y, Literal (CHR ''-''), Directive Dir_m, Literal (CHR ''-''),
           Directive Dir_d, Literal (CHR ''T''), Directive Dir_H, Literal (CHR '':''),
           Directive Dir_M, Literal (CHR '':''), Directive Dir_S, Literal (CHR ''Z'')]"
  by (simp add: formats_def directive_of_def)

lemma exactly_dot: "class_match (Exactly (CHR ''.'')) c \<longleftrightarrow> c = CHR ''.''"
proof -
  have "lower_ascii (of_char c) = 46 \<longleftrightarrow> (of_char c :: nat) = 46"
    by (simp add: lower_ascii_def)
  also have "\<dots> \<longleftrightarrow> (of_char c :: nat) = of_char (CHR ''.'')" by simp
  also have "\<dots> \<longleftrightarrow> c = CHR ''.''" by (simp only: of_char_eq_iff)
  finally show ?thesis by (auto simp: lower_ascii_def)
qed

lemma classes_exclude:
  "list_all2 class_match a m \<Longrightarrow> \<forall>k \<in> set a. \<not> class_match k c \<Longrightarrow> c \<notin> set m"
  by (induction a m rule: list_all2_induct) auto

lemma groups_exclude:
  "list_all2 (\<lambda>g m. \<exists>a \<in> set g. list_all2 class_match a m) gs ms \<Longrightarrow>
     \<forall>g \<in> set gs. \<forall>a \<in> set g. \<forall>k \<in> set a. \<not> class_match k c \<Longrightarrow> c \<notin> set (concat ms)"
proof (induction gs ms rule: list_all2_induct)
  case Nil
  show ?case by simp
next
  case (Cons g gs m ms)
  from Cons.hyps(1) obtain a where a: "a \<in> set g" "list_all2 class_match a m" by blast
  with Cons.prems have "c \<notin> set m" by (intro classes_exclude [OF a(2)]) auto
  moreover from Cons have "c \<notin> set (concat ms)" by simp
  ultimately show ?case by simp
qed

lemma strptime_Some_match:
  assumes "strptime (Some s) fmt = Inr t" and "pattern fmt = Some toks"
  shows "\<exists>ms. re_match (map token_regex toks) s = Some (ms, [])"
proof (cases "re_match (map token_regex toks) s")
  case None
  with assms show ?thesis by (simp add: strptime_def)
next
  case (Some res)
  obtain ms rest where res: "res = (ms, rest)" by (cases res)
  show ?thesis
  proof (cases "rest = []")
    case True
    with Some res show ?thesis by simp
  next
    case False
    with assms Some res show ?thesis by (simp add: strptime_def)
  qed
qed

lemma strptime_None: "strptime None fmt = Inl (TypeError ''strptime() argument 1 must be str, not None'')"
  by (simp add: strptime_def)

lemma datetime_new_ValueError: "datetime_new y m d H M S us = Inl e \<Longrightarrow> is_ValueError e"
  unfolding datetime_new_def by (simp split: if_splits) auto

lemma strptime_Some_ValueError:
  assumes "strptime (Some s) fmt = Inl e"
  shows "is_ValueError e"
proof (cases "pattern fmt")
  case None
  with assms show ?thesis by (auto simp: strptime_def)
next
  case (Some toks)
  show ?thesis
  proof (cases "re_match (map token_regex toks) s")
    case None
    with assms Some show ?thesis by (auto simp: strptime_def)
  next
    case (Some res)
    obtain ms rest where res: "res = (ms, rest)" by (cases res)
    show ?thesis
    proof (cases "rest = []")
      case True
      with assms \<open>pattern fmt = Some toks\<close> Some res show ?thesis
        by (simp add: strptime_def Let_def datetime_new_ValueError)
    next
      case False
      with assms \<open>pattern fmt = Some toks\<close> Some res show ?thesis
        by (auto simp: strptime_def)
    qed
  qed
qed

lemma plain_has_no_dot:
  assumes "strptime (Some s) (formats ! 1) = Inr t"
  shows "CHR ''.'' \<notin> set s"
proof -
  from strptime_Some_match [OF assms pattern_plain] obtain ms where
    m: "re_match (map token_regex
          [Directive Dir_Y, Literal (CHR ''-''), Directive Dir_m, Literal (CHR ''-''),
           Directive Dir_d, Literal (CHR ''T''), Directive Dir_H, Literal (CHR '':''),
           Directive Dir_M, Literal (CHR '':''), Directive Dir_S, Literal (CHR ''Z'')]) s = Some (ms, [])"
    by blast
  note snd = re_match_sound [OF m]
  have "CHR ''.'' \<notin> set (concat ms)"
    by (rule groups_exclude [OF conjunct2 [OF snd]]) (simp add: is_digit_def lower_ascii_def)
  with snd show ?thesis by simp
qed

lemma frac_has_dot:
  assumes "strptime (Some s) (formats ! 0) = Inr t"
  shows "CHR ''.'' \<in> set s"
proof -
  let ?toks = "[Directive Dir_Y, Literal (CHR ''-''), Directive Dir_m, Literal (CHR ''-''),
           Directive Dir_d, Literal (CHR ''T''), Directive Dir_H, Literal (CHR '':''),
           Directive Dir_M, Literal (CHR '':''), Directive Dir_S, Literal (CHR ''.''),
           Directive Dir_f, Literal (CHR ''Z'')]"
  from strptime_Some_match [OF assms pattern_frac] obtain ms where
    m: "re_match (map token_regex ?toks) s = Some (ms, [])"
    by blast
  note snd = re_match_sound [OF m]
  let ?P = "\<lambda>g m. \<exists>a \<in> set g. list_all2 class_match a m"
  from snd have all: "list_all2 ?P (map token_regex ?toks) ms" by (rule conjunct2)
  have len: "length ms = 14"
    using list_all2_lengthD [OF all] by simp
  have "?P (map token_regex ?toks ! 11) (ms ! 11)"
    by (rule list_all2_nthD [OF all]) simp
  then have "list_all2 class_match [Exactly (CHR ''.'')] (ms ! 11)"
    by simp
  then obtain c where c: "ms ! 11 = [c]" and cm: "class_match (Exactly (CHR ''.'')) c"
    by (auto simp: list_all2_Cons1 simp del: class_match.simps)
  from cm have "c = CHR ''.''" by (simp only: exactly_dot)
  with c have "CHR ''.'' \<in> set (ms ! 11)" by simp
  moreover have "ms ! 11 \<in> set ms" using len by (intro nth_mem) simp
  ultimately have "CHR ''.'' \<in> set (concat ms)" by auto
  with snd show ?thesis by simp
qed

lemma formats_exclusive:
  "strptime v (formats ! 1) = Inr t \<Longrightarrow> \<exists>e. strptime v (formats ! 0) = Inl e \<and> is_ValueError e"
proof (cases v)
  case None
  assume "strptime v (formats ! 1) = Inr t"
  with None show ?thesis by (simp add: strptime_None)
next
  case (Some s)
  assume h: "strptime v (formats ! 1) = Inr t"
  show ?thesis
  proof (cases "strptime (Some s) (formats ! 0)")
    case (Inl e)
    with Some strptime_Some_ValueError [OF Inl] show ?thesis by simp
  next
    case (Inr t')
    from frac_has_dot [OF Inr] plain_has_no_dot [OF h [unfolded Some]] show ?thesis by simp
  qed
qed

lemma parse_iso_date_iff:
  "parse_iso_date v = Inr t \<longleftrightarrow>
     strptime v (formats ! 0) = Inr t \<or> strptime v (formats ! 1) = Inr t"
proof -
  have f: "formats = [formats ! 0, formats ! 1]" by (simp add: formats_def)
  show ?thesis
  proof (cases "strptime v (formats ! 0)")
    case (Inr t0)
    have "strptime v (formats ! 1) = Inr t \<Longrightarrow> False"
      using formats_exclusive [of v t] Inr by auto
    then show ?thesis
      using Inr unfolding parse_iso_date_def by (subst f) auto
  next
    case (Inl e)
    show ?thesis
    proof (cases "is_ValueError e")
      case True
      with Inl show ?thesis
        unfolding parse_iso_date_def by (subst f) (auto split: sum.splits)
    next
      case False
      have "strptime v (formats ! 1) = Inr t \<Longrightarrow> False"
        using formats_exclusive [of v t] Inl False by auto
      with Inl False show ?thesis
        unfolding parse_iso_date_def by (subst f) (auto split: sum.splits)
    qed
  qed
qed

lemma recent_iff:
  "recent cutoff it \<longleftrightarrow>
     (case parse_iso_date (published_at it) of Inl e \<Rightarrow> False | Inr t \<Rightarrow> datetime_ge t cutoff)"
proof (cases "parse_iso_date (published_at it)")
  case (Inl e)
  then have "\<And>t. \<not> (strptime (published_at it) (formats ! 0) = Inr t \<or>
      strptime (published_at it) (formats ! 1) = Inr t)"
    using parse_iso_date_iff [of "published_at it"] by simp
  with Inl show ?thesis by (simp add: recent_def)
next
  case (Inr t)
  have "\<And>t'. (strptime (published_at it) (formats ! 0) = Inr t' \<or>
      strptime (published_at it) (formats ! 1) = Inr t') \<longleftrightarrow> t' = t"
  proof -
    fix t'
    have "(strptime (published_at it) (formats ! 0) = Inr t' \<or>
        strptime (published_at it) (formats ! 1) = Inr t') \<longleftrightarrow>
        parse_iso_date (published_at it) = Inr t'"
      by (simp only: parse_iso_date_iff)
    also have "\<dots> \<longleftrightarrow> t' = t" unfolding Inr by auto
    finally show "(strptime (published_at it) (formats ! 0) = Inr t' \<or>
        strptime (published_at it) (formats ! 1) = Inr t') \<longleftrightarrow> t' = t" .
  qed
  with Inr show ?thesis by (simp add: recent_def)
qed

lemma filter_loop_eq:
  assumes "\<forall>it \<in> set its. snippet it \<noteq> None"
  shows "filter_loop its cutoff acc = Inr (acc @ filter (recent cutoff) its)"
  using assms
proof (induction its arbitrary: acc)
  case Nil
  show ?case by simp
next
  case (Cons it its)
  from Cons.prems obtain sn where sn: "snippet it = Some sn" by auto
  from Cons.prems have rest: "\<forall>it \<in> set its. snippet it \<noteq> None" by simp
  have pa: "published_at it = publishedAt sn" by (simp add: published_at_def sn)
  show ?case
  proof (cases "parse_iso_date (publishedAt sn)")
    case (Inl e)
    then have "\<not> recent cutoff it" by (simp add: recent_iff pa)
    with Inl sn Cons.IH [OF rest] show ?thesis by simp
  next
    case (Inr t)
    then have "recent cutoff it \<longleftrightarrow> datetime_ge t cutoff" by (simp add: recent_iff pa)
    with Inr sn Cons.IH [OF rest] show ?thesis by simp
  qed
qed

lemma example_parse:
  "parse_iso_date (Some ''2024-03-05T10:20:30Z'') =
     Inr \<lparr>year = 2024, month = 3, day = 5, hour = 10, minute = 20, second = 30, microsecond = 0\<rparr>"
  "parse_iso_date (Some ''2024-03-01T08:00:00.5Z'') =
     Inr \<lparr>year = 2024, month = 3, day = 1, hour = 8, minute = 0, second = 0, microsecond = 500000\<rparr>"
  "parse_iso_date (Some ''2024-01-25T10:20:30Z'') =
     Inr \<lparr>year = 2024, month = 1, day = 25, hour = 10, minute = 20, second = 30, microsecond = 0\<rparr>"
  "parse_iso_date (Some ''yesterday'') =
     Inl (ValueError (''Time data '' @ [CHR 0x27] @ ''yesterday'' @ [CHR 0x27] @
                      '' does not match expected formats.''))"
  "parse_iso_date None = Inl (TypeError ''strptime() argument 1 must be str, not None'')"
  by code_simp+

section \<open>The recency filter\<close>

text \<open>
  When every record has its snippet, the filter loop raises nothing and returns the
  records whose publish timestamp parses under one of the two formats to a time at or
  after the cutoff, in their original order; a record whose timestamp is missing or does
  not parse is left out without ending the loop.
\<close>

lemma filter_loop_exact:
  assumes "\<forall>it \<in> set its. snippet it \<noteq> None"
  shows "filter_loop its cutoff [] = Inr (filter (recent cutoff) its) \<and>
         subseq (filter (recent cutoff) its) its"
  using filter_loop_eq [OF assms, of cutoff "[]"] by simp

text \<open>
  C1 fails on the code. Line 75 reads \<open>item["snippet"]\<close> outside the \<open>try\<close>, so a
  record without a snippet ends the loop with a \<open>KeyError\<close> and the whole batch is
  lost, while line 92 reads the same field with a default. Below, the first record is
  recent and the second has no snippet: the claim has the first returned and the second
  dropped, the loop raises, and the aggregation loop alone would have skipped the second.
\<close>

theorem recency_filter_aborts_without_snippet:
  "filter_loop [video_item ''10'' ''A'' ''2024-03-05T10:20:30Z'', \<lparr>snippet = None\<rparr>]
     \<lparr>year = 2024, month = 2, day = 27, hour = 10, minute = 20, second = 30, microsecond = 12\<rparr> [] =
     Inl (KeyError ([CHR 0x27] @ ''snippet'' @ [CHR 0x27])) \<and>
   filter (recent \<lparr>year = 2024, month = 2, day = 27, hour = 10, minute = 20, second = 30,
                   microsecond = 12\<rparr>)
     [video_item ''10'' ''A'' ''2024-03-05T10:20:30Z'', \<lparr>snippet = None\<rparr>] =
     [video_item ''10'' ''A'' ''2024-03-05T10:20:30Z''] \<and>
   group_loop [\<lparr>snippet = None\<rparr>] ([], []) = ([], [])"
  by (simp add: recent_iff published_at_def video_item_def example_parse datetime_ge_def
      getstate_def key_error_def)

section \<open>isoformat read back by strptime\<close>

text \<open>
  For every valid datetime \<open>t\<close> the text \<open>t.isoformat("T") + "Z"\<close> is parsed back to
  \<open>t\<close> by \<open>parse_iso_date\<close>: by the format with the fraction when \<open>t\<close> has
  microseconds, by the format without it otherwise.
\<close>

subsection \<open>Fixed-width decimal fields\<close>

lemma of_char_digit_char: "d < 10 \<Longrightarrow> (of_char (digit_char d) :: nat) = 48 + d"
proof -
  assume "d < 10"
  then have "(48 + d) mod 256 = 48 + d" by simp
  then show ?thesis by (simp only: digit_char_def of_char_of)
qed

lemma digit_char_0: "digit_char 0 = CHR ''0''"
proof -
  have "(of_char (digit_char 0) :: nat) = of_char (CHR ''0'')"
    by (simp add: of_char_digit_char)
  then show ?thesis by (simp only: of_char_eq_iff)
qed

lemma is_digit_digit_char: "d < 10 \<Longrightarrow> is_digit (digit_char d)"
  by (simp add: is_digit_def of_char_digit_char)

lemma digit_char_not_blank: "d < 10 \<Longrightarrow> digit_char d \<noteq> CHR '' ''"
proof
  assume "d < 10" and "digit_char d = CHR '' ''"
  then have "(of_char (digit_char d) :: nat) = of_char (CHR '' '')" by simp
  with \<open>d < 10\<close> show False by (simp add: of_char_digit_char)
qed

lemma str_nat_small: "n < 10 \<Longrightarrow> str_nat n = [digit_char n]"
  by (subst str_nat.simps) simp

lemma str_nat_big: "\<not> n < 10 \<Longrightarrow> str_nat n = str_nat (n div 10) @ [digit_char (n mod 10)]"
  by (subst str_nat.simps) simp

lemma length_str_nat: "0 < k \<Longrightarrow> n < 10 ^ k \<Longrightarrow> length (str_nat n) \<le> k"
proof (induction k arbitrary: n)
  case 0
  then show ?case by simp
next
  case (Suc k)
  show ?case
  proof (cases "n < 10")
    case True
    then show ?thesis by (simp add: str_nat_small)
  next
    case False
    with Suc.prems have k: "0 < k" by (cases k) auto
    from Suc.prems have "n div 10 < 10 ^ k" by (simp add: less_mult_imp_div_less mult.commute)
    from Suc.IH [OF k this] False show ?thesis by (simp add: str_nat_big)
  qed
qed

lemma zero_pad_digits: "0 < k \<Longrightarrow> n < 10 ^ k \<Longrightarrow> zero_pad k (str_nat n) = digits_fixed k n"
proof (induction k arbitrary: n)
  case 0
  then show ?case by simp
next
  case (Suc k)
  show ?case
  proof (cases "k = 0")
    case True
    with Suc.prems show ?thesis by (simp add: str_nat_small zero_pad_def)
  next
    case False
    then have k: "0 < k" by simp
    from Suc.prems have small: "n div 10 < 10 ^ k"
      by (simp add: less_mult_imp_div_less mult.commute)
    note IH = Suc.IH [OF k small]
    show ?thesis
    proof (cases "n < 10")
      case True
      then have z: "n div 10 = 0" by simp
      have "replicate k (CHR ''0'') = digits_fixed k 0"
      proof -
        have "zero_pad k (str_nat 0) = replicate (k - 1) (CHR ''0'') @ [CHR ''0'']"
          by (simp add: zero_pad_def str_nat_small digit_char_0)
        also have "\<dots> = replicate k (CHR ''0'')"
          using k by (cases k) (simp_all add: replicate_append_same)
        finally show ?thesis using IH z by simp
      qed
      with True z show ?thesis by (simp add: str_nat_small zero_pad_def)
    next
      case False
      have len: "length (str_nat (n div 10)) \<le> k" by (rule length_str_nat [OF k small])
      then have "zero_pad (Suc k) (str_nat (n div 10) @ [digit_char (n mod 10)]) =
          zero_pad k (str_nat (n div 10)) @ [digit_char (n mod 10)]"
        by (simp add: zero_pad_def Suc_diff_le)
      with False IH show ?thesis by (simp add: str_nat_big)
    qed
  qed
qed

lemma digits_int_fixed: "digits_int (digits_fixed k n) = int (n mod 10 ^ k)"
proof (induction k arbitrary: n)
  case 0
  show ?case by (simp add: digits_int_def)
next
  case (Suc k)
  have "digits_int (digits_fixed (Suc k) n) = 10 * int (n div 10 mod 10 ^ k) + int (n mod 10)"
    by (simp add: digits_int_snoc Suc.IH digit_val_digit_char)
  also have "\<dots> = int (10 * (n div 10 mod 10 ^ k) + n mod 10)" by simp
  also have "10 * (n div 10 mod 10 ^ k) + n mod 10 = n mod 10 ^ Suc k"
    by (simp add: mod_mult2_eq)
  finally show ?case .
qed

lemma digits_fixed_no_blank: "dropWhile (\<lambda>c. c = CHR '' '') (digits_fixed k n) = digits_fixed k n"
proof (cases k)
  case 0
  then show ?thesis by simp
next
  case (Suc j)
  have "\<And>n. \<exists>c cs. digits_fixed (Suc j) n = c # cs \<and> c \<noteq> CHR '' ''"
  proof (induction j)
    case 0
    show ?case by (simp add: digit_char_not_blank)
  next
    case (Suc j)
    from Suc [of "n div 10"] obtain c cs where "digits_fixed (Suc j) (n div 10) = c # cs" "c \<noteq> CHR '' ''"
      by blast
    then show ?case by simp
  qed
  then obtain c cs where "digits_fixed k n = c # cs" "c \<noteq> CHR '' ''" using Suc by blast
  then show ?thesis by simp
qed

lemma py_int_fixed: "py_int (digits_fixed k n) = int (n mod 10 ^ k)"
  by (simp add: py_int_def digits_fixed_no_blank digits_int_fixed)

lemma fmt_0d_fixed: "0 < k \<Longrightarrow> 0 \<le> i \<Longrightarrow> i < 10 ^ k \<Longrightarrow> fmt_0d k i = digits_fixed k (nat i)"
proof -
  assume k: "0 < k" and i: "0 \<le> i" "i < 10 ^ k"
  then have "nat i < 10 ^ k" by (metis nat_less_iff of_nat_numeral of_nat_power)
  with k i show ?thesis by (simp add: fmt_0d_def zero_pad_digits)
qed

subsection \<open>The groups of the regular expression\<close>

lemma lead2_match:
  "lead2 alts c1 c2 \<Longrightarrow> re_match gs rest = Some (ms, r) \<Longrightarrow>
     re_match (alts # gs) (c1 # c2 # rest) = Some ([c1, c2] # ms, r)"
proof (induction alts)
  case Nil
  then show ?case by simp
next
  case (Cons a as)
  from Cons.prems(1) obtain k1 k2 where a: "a = [k1, k2]"
    by (auto split: list.splits)
  show ?case
  proof (cases "class_match k1 c1 \<and> class_match k2 c2")
    case True
    with a Cons.prems(2) show ?thesis by simp
  next
    case False
    with a Cons.prems(1) have "lead2 as c1 c2" by simp
    from Cons.IH [OF this Cons.prems(2)] False a show ?thesis by auto
  qed
qed

lemma digits_fixed_2: "digits_fixed 2 v = [digit_char (v div 10 mod 10), digit_char (v mod 10)]"
  by (simp add: numeral_2_eq_2)

lemma two_digit_group:
  assumes "lead2 alts (digit_char (v div 10 mod 10)) (digit_char (v mod 10))"
    and "re_match gs rest = Some (ms, r)"
  shows "re_match (alts # gs) (digits_fixed 2 v @ rest) = Some (digits_fixed 2 v # ms, r)"
  using lead2_match [OF assms] by (simp add: digits_fixed_2)

lemma literal_group:
  assumes "re_match gs rest = Some (ms, r)"
  shows "re_match ([[Exactly c]] # gs) (c # rest) = Some ([c] # ms, r)"
  using assms by simp

lemma digits_fixed_all_digits: "list_all is_digit (digits_fixed k n)"
  by (induction k arbitrary: n) (simp_all add: is_digit_digit_char)

lemma match_digits:
  "list_all is_digit s \<Longrightarrow> match_classes (replicate (length s) Any_digit) (s @ rest) = Some (s, rest)"
  by (induction s) simp_all

lemma match_ranges:
  "list_all is_digit s \<Longrightarrow>
     match_classes (replicate (length s) (Range (CHR ''0'') (CHR ''9''))) (s @ rest) = Some (s, rest)"
  by (induction s) (simp_all add: is_digit_def)

lemma length_digits_fixed [simp]: "length (digits_fixed k n) = k"
  by (induction k arbitrary: n) simp_all

lemma replicate_4: "replicate 4 x = [x, x, x, x]"
  by (simp add: eval_nat_numeral)

lemma year_group:
  assumes "re_match gs rest = Some (ms, r)"
  shows "re_match (directive_regex Dir_Y # gs) (digits_fixed 4 y @ rest) = Some (digits_fixed 4 y # ms, r)"
proof -
  have "match_classes (replicate (length (digits_fixed 4 y)) Any_digit) (digits_fixed 4 y @ rest) =
      Some (digits_fixed 4 y, rest)"
    by (rule match_digits [OF digits_fixed_all_digits])
  then have "match_classes [Any_digit, Any_digit, Any_digit, Any_digit] (digits_fixed 4 y @ rest) =
      Some (digits_fixed 4 y, rest)"
    by (simp only: length_digits_fixed replicate_4)
  with assms show ?thesis by (simp del: match_classes.simps)
qed

lemma fraction_group:
  assumes "re_match gs rest = Some (ms, r)"
  shows "re_match (directive_regex Dir_f # gs) (digits_fixed 6 us @ rest) = Some (digits_fixed 6 us # ms, r)"
proof -
  have "match_classes (replicate 6 (Range (CHR ''0'') (CHR ''9''))) (digits_fixed 6 us @ rest) =
      Some (digits_fixed 6 us, rest)"
    using match_ranges [OF digits_fixed_all_digits, of 6 us rest] by simp
  with assms show ?thesis by simp
qed

lemma cm_digit [simp]: "d < 10 \<Longrightarrow> class_match Any_digit (digit_char d)"
  by (simp add: is_digit_digit_char)

lemma cm_range [simp]:
  "d < 10 \<Longrightarrow> class_match (Range a b) (digit_char d) \<longleftrightarrow>
     (of_char a :: nat) \<le> 48 + d \<and> 48 + d \<le> (of_char b :: nat)"
  by (simp add: of_char_digit_char)

lemma cm_exactly [simp]:
  "d < 10 \<Longrightarrow> class_match (Exactly a) (digit_char d) \<longleftrightarrow>
     lower_ascii (of_char a) = 48 + d"
  by (simp add: of_char_digit_char lower_ascii_def)

lemma lead2_S:
  assumes "v < 60"
  shows "lead2 (directive_regex Dir_S) (digit_char (v div 10 mod 10)) (digit_char (v mod 10))"
proof -
  have a: "v div 10 mod 10 < 10" "v mod 10 < 10" by simp_all
  from assms have "v div 10 mod 10 \<le> 5" by simp
  with a show ?thesis by (simp add: lower_ascii_def del: class_match.simps)
qed

lemma lead2_M:
  assumes "v < 60"
  shows "lead2 (directive_regex Dir_M) (digit_char (v div 10 mod 10)) (digit_char (v mod 10))"
proof -
  have a: "v div 10 mod 10 < 10" "v mod 10 < 10" by simp_all
  from assms have "v div 10 mod 10 \<le> 5" by simp
  with a show ?thesis by (simp add: lower_ascii_def del: class_match.simps)
qed

lemma split_two_digits:
  assumes "(v::nat) < 100"
  obtains A B where "v = 10 * A + B" and "B < 10" and "A < 10"
    and "v div 10 mod 10 = A" and "v mod 10 = B"
proof -
  have "v = 10 * (v div 10) + v mod 10" by simp
  moreover have "v mod 10 < 10" by simp
  moreover from assms have "v div 10 < 10" by simp
  moreover from this have "v div 10 mod 10 = v div 10" by simp
  ultimately show ?thesis using that by blast
qed

lemma lead2_H:
  assumes "v < 24"
  shows "lead2 (directive_regex Dir_H) (digit_char (v div 10 mod 10)) (digit_char (v mod 10))"
proof -
  from assms have "v < 100" by simp
  then obtain A B where v: "v = 10 * A + B" and B: "B < 10" and A: "A < 10"
    and eq: "v div 10 mod 10 = A" "v mod 10 = B"
    by (rule split_two_digits)
  from assms v B have "(A = 2 \<and> B \<le> 3) \<or> A \<le> 1" by linarith
  then have "lead2 (directive_regex Dir_H) (digit_char A) (digit_char B)"
  proof (elim disjE conjE)
    assume "A = 2" "B \<le> 3"
    with B show ?thesis by (simp add: lower_ascii_def del: class_match.simps)
  next
    assume "A \<le> 1"
    with A B show ?thesis by (simp add: lower_ascii_def del: class_match.simps)
  qed
  then show ?thesis by (simp only: eq)
qed

lemma lead2_d:
  assumes "1 \<le> v" and "v \<le> 31"
  shows "lead2 (directive_regex Dir_d) (digit_char (v div 10 mod 10)) (digit_char (v mod 10))"
proof -
  from assms have "v < 100" by simp
  then obtain A B where v: "v = 10 * A + B" and B: "B < 10" and A: "A < 10"
    and eq: "v div 10 mod 10 = A" "v mod 10 = B"
    by (rule split_two_digits)
  from assms v B have "(A = 3 \<and> B \<le> 1) \<or> (1 \<le> A \<and> A \<le> 2) \<or> (A = 0 \<and> 1 \<le> B)"
    by linarith
  then have "lead2 (directive_regex Dir_d) (digit_char A) (digit_char B)"
  proof (elim disjE conjE)
    assume "A = 3" "B \<le> 1"
    with B show ?thesis by (simp add: lower_ascii_def del: class_match.simps)
  next
    assume "1 \<le> A" "A \<le> 2"
    with A B show ?thesis by (simp add: lower_ascii_def del: class_match.simps)
  next
    assume "A = 0" "1 \<le> B"
    with B show ?thesis by (simp add: lower_ascii_def del: class_match.simps)
  qed
  then show ?thesis by (simp only: eq)
qed

lemma lead2_m:
  assumes "1 \<le> v" and "v \<le> 12"
  shows "lead2 (directive_regex Dir_m) (digit_char (v div 10 mod 10)) (digit_char (v mod 10))"
proof -
  from assms have "v < 100" by simp
  then obtain A B where v: "v = 10 * A + B" and B: "B < 10" and A: "A < 10"
    and eq: "v div 10 mod 10 = A" "v mod 10 = B"
    by (rule split_two_digits)
  from assms v B have "(A = 1 \<and> B \<le> 2) \<or> (A = 0 \<and> 1 \<le> B)"
    by linarith
  then have "lead2 (directive_regex Dir_m) (digit_char A) (digit_char B)"
  proof (elim disjE conjE)
    assume "A = 1" "B \<le> 2"
    with B show ?thesis by (simp add: lower_ascii_def del: class_match.simps)
  next
    assume "A = 0" "1 \<le> B"
    with B show ?thesis by (simp add: lower_ascii_def del: class_match.simps)
  qed
  then show ?thesis by (simp only: eq)
qed

subsection \<open>The text of isoformat\<close>

lemma month_cases:
  assumes "1 \<le> (m::int)" and "m \<le> 12"
  shows "m = 1 \<or> m = 2 \<or> m = 3 \<or> m = 4 \<or> m = 5 \<or> m = 6 \<or> m = 7 \<or> m = 8 \<or>
      m = 9 \<or> m = 10 \<or> m = 11 \<or> m = 12"
proof (cases "m \<le> 6")
  case True
  with assms have "m = 1 \<or> m = 2 \<or> m = 3 \<or> m = 4 \<or> m = 5 \<or> m = 6" by linarith
  then show ?thesis by blast
next
  case False
  with assms have "m = 7 \<or> m = 8 \<or> m = 9 \<or> m = 10 \<or> m = 11 \<or> m = 12" by linarith
  then show ?thesis by blast
qed

lemma days_in_month_bounds:
  assumes "1 \<le> m" and "m \<le> 12"
  shows "28 \<le> days_in_month y m \<and> days_in_month y m \<le> 31"
proof -
  from month_cases [OF assms] show ?thesis
    by (elim disjE) (simp_all add: days_in_month_def DAYS_IN_MONTH_def)
qed

lemma valid_datetime_fields:
  assumes "valid_datetime t"
  shows "1 \<le> year t" "year t \<le> 9999" "1 \<le> month t" "month t \<le> 12"
    "1 \<le> day t" "day t \<le> days_in_month (year t) (month t)" "day t \<le> 31"
    "0 \<le> hour t" "hour t \<le> 23" "0 \<le> minute t" "minute t \<le> 59"
    "0 \<le> second t" "second t \<le> 59" "0 \<le> microsecond t" "microsecond t \<le> 999999"
proof -
  from assms show a: "1 \<le> year t" "year t \<le> 9999" "1 \<le> month t" "month t \<le> 12"
    "1 \<le> day t" "day t \<le> days_in_month (year t) (month t)"
    "0 \<le> hour t" "hour t \<le> 23" "0 \<le> minute t" "minute t \<le> 59"
    "0 \<le> second t" "second t \<le> 59" "0 \<le> microsecond t" "microsecond t \<le> 999999"
    by (simp_all add: valid_datetime_def MINYEAR_def MAXYEAR_def)
  from days_in_month_bounds [OF a(3,4), of "year t"] a(6) show "day t \<le> 31" by linarith
qed

lemma isoformat_plain:
  assumes "valid_datetime t" and "microsecond t = 0"
  shows "isoformat t (CHR ''T'') @ ''Z'' = iso_date_time t ''Z''"
proof -
  note v = valid_datetime_fields [OF assms(1)]
  have "fmt_0d 4 (year t) = digits_fixed 4 (nat (year t))"
    using v by (intro fmt_0d_fixed) simp_all
  moreover have "fmt_0d 2 (month t) = digits_fixed 2 (nat (month t))"
    using v by (intro fmt_0d_fixed) simp_all
  moreover have "fmt_0d 2 (day t) = digits_fixed 2 (nat (day t))"
    using v by (intro fmt_0d_fixed) simp_all
  moreover have "fmt_0d 2 (hour t) = digits_fixed 2 (nat (hour t))"
    using v by (intro fmt_0d_fixed) simp_all
  moreover have "fmt_0d 2 (minute t) = digits_fixed 2 (nat (minute t))"
    using v by (intro fmt_0d_fixed) simp_all
  moreover have "fmt_0d 2 (second t) = digits_fixed 2 (nat (second t))"
    using v by (intro fmt_0d_fixed) simp_all
  ultimately show ?thesis
    using assms(2) by (simp add: isoformat_def format_time_def iso_date_time_def del: digits_fixed.simps)
qed

lemma isoformat_frac:
  assumes "valid_datetime t" and "microsecond t \<noteq> 0"
  shows "isoformat t (CHR ''T'') @ ''Z'' =
     iso_date_time t (CHR ''.'' # digits_fixed 6 (nat (microsecond t)) @ ''Z'')"
proof -
  note v = valid_datetime_fields [OF assms(1)]
  have "fmt_0d 4 (year t) = digits_fixed 4 (nat (year t))"
    using v by (intro fmt_0d_fixed) simp_all
  moreover have "fmt_0d 2 (month t) = digits_fixed 2 (nat (month t))"
    using v by (intro fmt_0d_fixed) simp_all
  moreover have "fmt_0d 2 (day t) = digits_fixed 2 (nat (day t))"
    using v by (intro fmt_0d_fixed) simp_all
  moreover have "fmt_0d 2 (hour t) = digits_fixed 2 (nat (hour t))"
    using v by (intro fmt_0d_fixed) simp_all
  moreover have "fmt_0d 2 (minute t) = digits_fixed 2 (nat (minute t))"
    using v by (intro fmt_0d_fixed) simp_all
  moreover have "fmt_0d 2 (second t) = digits_fixed 2 (nat (second t))"
    using v by (intro fmt_0d_fixed) simp_all
  moreover have "fmt_0d 6 (microsecond t) = digits_fixed 6 (nat (microsecond t))"
    using v by (intro fmt_0d_fixed) simp_all
  ultimately show ?thesis
    using assms(2) by (simp add: isoformat_def format_time_def iso_date_time_def del: digits_fixed.simps)
qed

lemma match_date_time:
  assumes "valid_datetime t" and "re_match gs rest = Some (ms, r)"
  shows "re_match (directive_regex Dir_Y # [[Exactly (CHR ''-'')]] # directive_regex Dir_m #
            [[Exactly (CHR ''-'')]] # directive_regex Dir_d # [[Exactly (CHR ''T'')]] #
            directive_regex Dir_H # [[Exactly (CHR '':'')]] # directive_regex Dir_M #
            [[Exactly (CHR '':'')]] # directive_regex Dir_S # gs) (iso_date_time t rest) =
         Some (digits_fixed 4 (nat (year t)) # [CHR ''-''] # digits_fixed 2 (nat (month t)) #
               [CHR ''-''] # digits_fixed 2 (nat (day t)) # [CHR ''T''] #
               digits_fixed 2 (nat (hour t)) # [CHR '':''] # digits_fixed 2 (nat (minute t)) #
               [CHR '':''] # digits_fixed 2 (nat (second t)) # ms, r)"
proof -
  note v = valid_datetime_fields [OF assms(1)]
  have S: "nat (second t) < 60" and M: "nat (minute t) < 60" and H: "nat (hour t) < 24"
    and d: "1 \<le> nat (day t)" "nat (day t) \<le> 31" and m: "1 \<le> nat (month t)" "nat (month t) \<le> 12"
    using v by simp_all
  note s1 = two_digit_group [OF lead2_S [OF S] assms(2)]
  note s2 = literal_group [OF s1, of "CHR '':''"]
  note s3 = two_digit_group [OF lead2_M [OF M] s2]
  note s4 = literal_group [OF s3, of "CHR '':''"]
  note s5 = two_digit_group [OF lead2_H [OF H] s4]
  note s6 = literal_group [OF s5, of "CHR ''T''"]
  note s7 = two_digit_group [OF lead2_d [OF d] s6]
  note s8 = literal_group [OF s7, of "CHR ''-''"]
  note s9 = two_digit_group [OF lead2_m [OF m] s8]
  note s10 = literal_group [OF s9, of "CHR ''-''"]
  note s11 = year_group [OF s10, of "nat (year t)"]
  show ?thesis unfolding iso_date_time_def by (rule s11)
qed

subsection \<open>The round trip\<close>

lemma datetime_new_valid:
  assumes "valid_datetime t"
  shows "datetime_new (year t) (month t) (day t) (hour t) (minute t) (second t) (microsecond t) = Inr t"
  using assms by (simp add: datetime_new_def valid_datetime_def)

lemma int_nat_mod:
  assumes "0 \<le> i" and "i < 10 ^ k"
  shows "int (nat i mod 10 ^ k) = i"
proof -
  from assms have "nat i < 10 ^ k" by (metis nat_less_iff of_nat_numeral of_nat_power)
  with assms(1) show ?thesis by simp
qed

lemma strptime_plain_roundtrip:
  assumes "valid_datetime t" and "microsecond t = 0"
  shows "strptime (Some (isoformat t (CHR ''T'') @ ''Z'')) (formats ! 1) = Inr t"
proof -
  let ?toks = "[Directive Dir_Y, Literal (CHR ''-''), Directive Dir_m, Literal (CHR ''-''),
           Directive Dir_d, Literal (CHR ''T''), Directive Dir_H, Literal (CHR '':''),
           Directive Dir_M, Literal (CHR '':''), Directive Dir_S, Literal (CHR ''Z'')]"
  let ?groups = "[digits_fixed 4 (nat (year t)), [CHR ''-''], digits_fixed 2 (nat (month t)),
               [CHR ''-''], digits_fixed 2 (nat (day t)), [CHR ''T''],
               digits_fixed 2 (nat (hour t)), [CHR '':''], digits_fixed 2 (nat (minute t)),
               [CHR '':''], digits_fixed 2 (nat (second t)), [CHR ''Z'']]"
  note v = valid_datetime_fields [OF assms(1)]
  have z: "re_match [[[Exactly (CHR ''Z'')]]] ''Z'' = Some ([[CHR ''Z'']], [])"
    by simp
  have m: "re_match (map token_regex ?toks) (iso_date_time t ''Z'') = Some (?groups, [])"
    unfolding list.map token_regex.simps by (rule match_date_time [OF assms(1) z])
  have f: "found_dict ?toks ?groups Dir_Y = Some (digits_fixed 4 (nat (year t)))"
    "found_dict ?toks ?groups Dir_m = Some (digits_fixed 2 (nat (month t)))"
    "found_dict ?toks ?groups Dir_d = Some (digits_fixed 2 (nat (day t)))"
    "found_dict ?toks ?groups Dir_H = Some (digits_fixed 2 (nat (hour t)))"
    "found_dict ?toks ?groups Dir_M = Some (digits_fixed 2 (nat (minute t)))"
    "found_dict ?toks ?groups Dir_S = Some (digits_fixed 2 (nat (second t)))"
    "found_dict ?toks ?groups Dir_f = None"
    by (simp_all add: found_dict_def del: digits_fixed.simps)
  have g: "group_int (Some (digits_fixed 4 (nat (year t)))) 1900 = year t"
    "group_int (Some (digits_fixed 2 (nat (month t)))) 1 = month t"
    "group_int (Some (digits_fixed 2 (nat (day t)))) 1 = day t"
    "group_int (Some (digits_fixed 2 (nat (hour t)))) 0 = hour t"
    "group_int (Some (digits_fixed 2 (nat (minute t)))) 0 = minute t"
    "group_int (Some (digits_fixed 2 (nat (second t)))) 0 = second t"
    using v by (simp_all add: group_int_def py_int_fixed int_nat_mod del: digits_fixed.simps)
  have "strptime (Some (iso_date_time t ''Z'')) (formats ! 1) =
      datetime_new (year t) (month t) (day t) (hour t) (minute t) (second t) 0"
    by (simp only: strptime_def pattern_plain m option.case prod.case Let_def f g
        simp_thms if_False)
  with assms show ?thesis
    by (simp only: isoformat_plain datetime_new_valid [symmetric])
qed

lemma strptime_frac_roundtrip:
  assumes "valid_datetime t" and "microsecond t \<noteq> 0"
  shows "strptime (Some (isoformat t (CHR ''T'') @ ''Z'')) (formats ! 0) = Inr t"
proof -
  let ?toks = "[Directive Dir_Y, Literal (CHR ''-''), Directive Dir_m, Literal (CHR ''-''),
           Directive Dir_d, Literal (CHR ''T''), Directive Dir_H, Literal (CHR '':''),
           Directive Dir_M, Literal (CHR '':''), Directive Dir_S, Literal (CHR ''.''),
           Directive Dir_f, Literal (CHR ''Z'')]"
  let ?us = "digits_fixed 6 (nat (microsecond t))"
  let ?groups = "[digits_fixed 4 (nat (year t)), [CHR ''-''], digits_fixed 2 (nat (month t)),
               [CHR ''-''], digits_fixed 2 (nat (day t)), [CHR ''T''],
               digits_fixed 2 (nat (hour t)), [CHR '':''], digits_fixed 2 (nat (minute t)),
               [CHR '':''], digits_fixed 2 (nat (second t)), [CHR ''.''], ?us, [CHR ''Z'']]"
  note v = valid_datetime_fields [OF assms(1)]
  have z: "re_match [[[Exactly (CHR ''Z'')]]] ''Z'' = Some ([[CHR ''Z'']], [])"
    by simp
  note z1 = fraction_group [OF z, of "nat (microsecond t)"]
  note z2 = literal_group [OF z1, of "CHR ''.''"]
  have m: "re_match (map token_regex ?toks) (iso_date_time t (CHR ''.'' # ?us @ ''Z'')) =
      Some (?groups, [])"
    unfolding list.map token_regex.simps by (rule match_date_time [OF assms(1) z2])
  have f: "found_dict ?toks ?groups Dir_Y = Some (digits_fixed 4 (nat (year t)))"
    "found_dict ?toks ?groups Dir_m = Some (digits_fixed 2 (nat (month t)))"
    "found_dict ?toks ?groups Dir_d = Some (digits_fixed 2 (nat (day t)))"
    "found_dict ?toks ?groups Dir_H = Some (digits_fixed 2 (nat (hour t)))"
    "found_dict ?toks ?groups Dir_M = Some (digits_fixed 2 (nat (minute t)))"
    "found_dict ?toks ?groups Dir_S = Some (digits_fixed 2 (nat (second t)))"
    "found_dict ?toks ?groups Dir_f = Some ?us"
    by (simp_all add: found_dict_def del: digits_fixed.simps)
  have g: "group_int (Some (digits_fixed 4 (nat (year t)))) 1900 = year t"
    "group_int (Some (digits_fixed 2 (nat (month t)))) 1 = month t"
    "group_int (Some (digits_fixed 2 (nat (day t)))) 1 = day t"
    "group_int (Some (digits_fixed 2 (nat (hour t)))) 0 = hour t"
    "group_int (Some (digits_fixed 2 (nat (minute t)))) 0 = minute t"
    "group_int (Some (digits_fixed 2 (nat (second t)))) 0 = second t"
    using v by (simp_all add: group_int_def py_int_fixed int_nat_mod del: digits_fixed.simps)
  have us: "py_int (?us @ replicate (6 - length ?us) (CHR ''0'')) = microsecond t"
    using v by (simp add: py_int_fixed int_nat_mod del: digits_fixed.simps)
  have "strptime (Some (iso_date_time t (CHR ''.'' # ?us @ ''Z''))) (formats ! 0) =
      datetime_new (year t) (month t) (day t) (hour t) (minute t) (second t) (microsecond t)"
    by (simp only: strptime_def pattern_frac m option.case prod.case Let_def f g us
        simp_thms if_False)
  then show ?thesis
    unfolding isoformat_frac [OF assms] datetime_new_valid [OF assms(1)] .
qed

lemma parse_isoformat:
  assumes "valid_datetime t"
  shows "parse_iso_date (Some (isoformat t (CHR ''T'') @ ''Z'')) = Inr t"
proof (cases "microsecond t = 0")
  case True
  from strptime_plain_roundtrip [OF assms True] show ?thesis
    by (simp only: parse_iso_date_iff simp_thms)
next
  case False
  from strptime_frac_roundtrip [OF assms False] show ?thesis
    by (simp only: parse_iso_date_iff simp_thms)
qed

section \<open>The proleptic Gregorian calendar\<close>

text \<open>
  \<open>_ord2ymd\<close> returns a valid date whose ordinal is its argument, and the ordinals of
  valid dates are ordered as the dates are.
\<close>

subsection \<open>Month and day within a year\<close>

lemma all_ok_common: "list_all (month_day_ok False) [0..364]"
  by code_simp

lemma all_ok_leap: "list_all (month_day_ok True) [0..365]"
  by code_simp

subsection \<open>The year of an ordinal\<close>

lemma DI_values: "DI400Y = 146097" "DI100Y = 36524" "DI4Y = 1461"
  by (simp_all add: DI400Y_def DI100Y_def DI4Y_def days_before_year_def)

lemma year_parts_days:
  fixes a b c e :: int
  assumes "0 \<le> b" "b \<le> 3" "0 \<le> c" "c \<le> 24" "0 \<le> e" "e \<le> 3"
  shows "days_before_year (400 * a + 100 * b + 4 * c + e + 1) =
           146097 * a + 36524 * b + 1461 * c + 365 * e"
proof -
  let ?x = "400 * a + 100 * b + 4 * c + e"
  have d4: "?x div 4 = 100 * a + 25 * b + c"
    using assms by (intro int_div_pos_eq [where r = e]) simp_all
  have d100: "?x div 100 = 4 * a + b"
    using assms by (intro int_div_pos_eq [where r = "4 * c + e"]) simp_all
  have d400: "?x div 400 = a"
    using assms by (intro int_div_pos_eq [where r = "100 * b + 4 * c + e"]) simp_all
  have "days_before_year (?x + 1) = ?x * 365 + ?x div 4 - ?x div 100 + ?x div 400"
    by (simp add: days_before_year_def Let_def)
  also have "\<dots> = 146097 * a + 36524 * b + 1461 * c + 365 * e"
    unfolding d4 d100 d400 by simp
  finally show ?thesis .
qed

lemma year_parts_leap:
  fixes a b c e :: int
  assumes "0 \<le> b" "b \<le> 3" "0 \<le> c" "c \<le> 24" "0 \<le> e" "e \<le> 3"
  shows "is_leap (400 * a + 100 * b + 4 * c + e + 1) \<longleftrightarrow> e = 3 \<and> (c \<noteq> 24 \<or> b = 3)"
proof -
  let ?y = "400 * a + 100 * b + 4 * c + e + 1"
  have m4: "?y mod 4 = 0 \<longleftrightarrow> e = 3"
  proof (cases "e = 3")
    case True
    have "?y mod 4 = 0"
      using True by (intro int_mod_pos_eq [where q = "100 * a + 25 * b + c + 1"]) simp_all
    with True show ?thesis by simp
  next
    case False
    have "?y mod 4 = e + 1"
      using assms False by (intro int_mod_pos_eq [where q = "100 * a + 25 * b + c"]) simp_all
    with assms False show ?thesis by simp
  qed
  have m100: "?y mod 100 = 0 \<longleftrightarrow> c = 24 \<and> e = 3"
  proof (cases "c = 24 \<and> e = 3")
    case True
    have "?y mod 100 = 0"
      using True by (intro int_mod_pos_eq [where q = "4 * a + b + 1"]) simp_all
    with True show ?thesis by simp
  next
    case False
    have "?y mod 100 = 4 * c + e + 1"
      using assms False by (intro int_mod_pos_eq [where q = "4 * a + b"]) auto
    with assms False show ?thesis by auto
  qed
  have m400: "?y mod 400 = 0 \<longleftrightarrow> b = 3 \<and> c = 24 \<and> e = 3"
  proof (cases "b = 3 \<and> c = 24 \<and> e = 3")
    case True
    have "?y mod 400 = 0"
      using True by (intro int_mod_pos_eq [where q = "a + 1"]) simp_all
    with True show ?thesis by simp
  next
    case False
    have "?y mod 400 = 100 * b + 4 * c + e + 1"
      using assms False by (intro int_mod_pos_eq [where q = a]) auto
    with assms False show ?thesis by auto
  qed
  show ?thesis
    unfolding is_leap_def m4 m100 m400 by auto
qed

lemma ord2ymd_parts:
  fixes a b c e r :: int
  assumes n: "n - 1 = 146097 * a + (36524 * b + (1461 * c + (365 * e + r)))"
    and r3: "0 \<le> 365 * e + r" "365 * e + r < 1461"
    and r2: "0 \<le> c" "1461 * c + (365 * e + r) < 36524"
    and r1: "0 \<le> b" "36524 * b + (1461 * c + (365 * e + r)) < 146097"
    and r0: "0 \<le> r" "r < 365"
  shows "ord2ymd n =
     (if e = 4 \<or> b = 4 then (a * 400 + 1 + b * 100 + c * 4 + e - 1, 12, 31)
      else (a * 400 + 1 + b * 100 + c * 4 + e,
            fst (month_day (e = 3 \<and> (c \<noteq> 24 \<or> b = 3)) r),
            snd (month_day (e = 3 \<and> (c \<noteq> 24 \<or> b = 3)) r)))"
proof -
  let ?R3 = "365 * e + r"
  let ?R2 = "1461 * c + ?R3"
  let ?R1 = "36524 * b + ?R2"
  have d1: "(n - 1) div 146097 = a" and m1: "(n - 1) mod 146097 = ?R1"
    using n r1 r2 r3 by (auto intro: int_div_pos_eq int_mod_pos_eq)
  have d2: "?R1 div 36524 = b" and m2: "?R1 mod 36524 = ?R2"
    using r2 r3 by (auto intro: int_div_pos_eq int_mod_pos_eq)
  have d3: "?R2 div 1461 = c" and m3: "?R2 mod 1461 = ?R3"
    using r3 by (auto intro: int_div_pos_eq int_mod_pos_eq)
  have d4: "?R3 div 365 = e" and m4: "?R3 mod 365 = r"
    using r0 by (auto intro: int_div_pos_eq int_mod_pos_eq)
  show ?thesis
    unfolding ord2ymd_def Let_def DI_values d1 m1 d2 m2 d3 m3 d4 m4 month_day_def
    by simp
qed

lemma succ_div:
  fixes x k :: int
  assumes "0 < k"
  shows "(x + 1) div k = x div k + (if (x + 1) mod k = 0 then 1 else 0)"
proof (cases "x mod k = k - 1")
  case True
  have "x + 1 = (k * (x div k) + x mod k) + 1" by simp
  also have "\<dots> = k * (x div k) + k" unfolding True by simp
  also have "\<dots> = k * (x div k + 1) + 0" by (simp add: algebra_simps)
  finally have x: "x + 1 = k * (x div k + 1) + 0" .
  have z: "(0::int) \<le> 0" by simp
  from int_div_pos_eq [OF x z assms] int_mod_pos_eq [OF x z assms]
  show ?thesis by simp
next
  case False
  have x: "x + 1 = k * (x div k) + (x mod k + 1)" by simp
  have lt: "x mod k + 1 < k" and ge: "0 \<le> x mod k + 1"
    using False assms pos_mod_bound [of k x] pos_mod_sign [of k x] by linarith+
  have nz: "x mod k + 1 \<noteq> 0"
    using assms pos_mod_sign [of k x] by linarith
  from int_div_pos_eq [OF x ge lt] int_mod_pos_eq [OF x ge lt] nz
  show ?thesis by simp
qed

lemma mod_100_4: "(y::int) mod 100 = 0 \<Longrightarrow> y mod 4 = 0"
proof -
  assume "y mod 100 = 0"
  then have "100 dvd y" by (simp add: dvd_eq_mod_eq_0)
  moreover have "(4::int) dvd 100" by simp
  ultimately have "4 dvd y" by (rule dvd_trans [rotated])
  then show "y mod 4 = 0" by (simp add: dvd_eq_mod_eq_0)
qed

lemma step_linear:
  fixes y q4 q4' q100 q100' q400 q400' p4 p100 p400 L :: int
  assumes "q4 = q4' + p4" and "q100 = q100' + p100" and "q400 = q400' + p400"
    and "L = p4 - p100 + p400"
  shows "y * 365 + q4 - q100 + q400 = ((y - 1) * 365 + q4' - q100' + q400') + 365 + L"
  unfolding assms by (simp add: algebra_simps)

lemma mod_400_100: "(y::int) mod 400 = 0 \<Longrightarrow> y mod 100 = 0"
proof -
  assume "y mod 400 = 0"
  then have "400 dvd y" by (simp add: dvd_eq_mod_eq_0)
  moreover have "(100::int) dvd 400" by simp
  ultimately have "100 dvd y" by (rule dvd_trans [rotated])
  then show "y mod 100 = 0" by (simp add: dvd_eq_mod_eq_0)
qed

lemma pred_div:
  fixes x k :: int
  assumes "0 < k"
  shows "x div k = (x - 1) div k + (if x mod k = 0 then 1 else 0)"
proof -
  have s: "x - 1 + 1 = x" by simp
  from succ_div [OF assms, of "x - 1"] show ?thesis unfolding s .
qed

lemma leap_as_sum:
  assumes "(y::int) mod 100 = 0 \<Longrightarrow> y mod 4 = 0" and "y mod 400 = 0 \<Longrightarrow> y mod 100 = 0"
  shows "(if is_leap y then (1::int) else 0) =
     (if y mod 4 = 0 then 1 else 0) - (if y mod 100 = 0 then 1 else 0) +
     (if y mod 400 = 0 then 1 else 0)"
proof (cases "y mod 4 = 0")
  case False
  have n100: "y mod 100 \<noteq> 0"
  proof
    assume "y mod 100 = 0"
    from assms(1) [OF this] False show False by simp
  qed
  have n400: "y mod 400 \<noteq> 0"
  proof
    assume "y mod 400 = 0"
    from assms(2) [OF this] n100 show False by simp
  qed
  from False n100 n400 show ?thesis by (simp add: is_leap_def)
next
  case True
  show ?thesis
  proof (cases "y mod 100 = 0")
    case False
    have "y mod 400 \<noteq> 0"
    proof
      assume "y mod 400 = 0"
      from assms(2) [OF this] False show False by simp
    qed
    with True False show ?thesis by (simp add: is_leap_def)
  next
    case h: True
    show ?thesis using True h by (simp add: is_leap_def)
  qed
qed

lemma days_before_year_step:
  "days_before_year (y + 1) = days_before_year y + 365 + (if is_leap y then 1 else 0)"
proof -
  have a: "y div 4 = (y - 1) div 4 + (if y mod 4 = 0 then 1 else 0)"
    by (rule pred_div) simp
  have b: "y div 100 = (y - 1) div 100 + (if y mod 100 = 0 then 1 else 0)"
    by (rule pred_div) simp
  have c: "y div 400 = (y - 1) div 400 + (if y mod 400 = 0 then 1 else 0)"
    by (rule pred_div) simp
  have l: "(if is_leap y then (1::int) else 0) =
     (if y mod 4 = 0 then 1 else 0) - (if y mod 100 = 0 then 1 else 0) +
     (if y mod 400 = 0 then 1 else 0)"
    by (rule leap_as_sum) (rule mod_100_4, assumption, rule mod_400_100, assumption)
  have t: "y + 1 - 1 = y" by simp
  show ?thesis
    unfolding days_before_year_def Let_def t
    by (rule step_linear [OF a b c l])
qed

lemma days_before_year_mono: "y \<le> y' \<Longrightarrow> days_before_year y \<le> days_before_year y'"
proof (induction y' rule: int_ge_induct)
  case base
  show ?case by simp
next
  case (step i)
  have "days_before_year i \<le> days_before_year (i + 1)"
    unfolding days_before_year_step by simp
  with step show ?case by linarith
qed

lemma days_before_year_next: "days_before_year y + 365 \<le> days_before_year (y + 1)"
  unfolding days_before_year_step by simp

lemma days_before_year_values: "days_before_year 1 = 0" "days_before_year 10000 = 3652059"
  by (simp_all add: days_before_year_def)

subsection \<open>ord2ymd inverts ymd2ord\<close>

lemma ord_decompose:
  fixes n :: int
  assumes "1 \<le> n"
  obtains a b c e r :: int where
    "n - 1 = 146097 * a + (36524 * b + (1461 * c + (365 * e + r)))"
    "0 \<le> a" "0 \<le> b" "0 \<le> c" "0 \<le> e" "0 \<le> r" "r < 365"
    "365 * e + r < 1461" "1461 * c + (365 * e + r) < 36524"
    "36524 * b + (1461 * c + (365 * e + r)) < 146097"
proof -
  define a where "a = (n - 1) div 146097"
  define R1 where "R1 = (n - 1) mod 146097"
  define b where "b = R1 div 36524"
  define R2 where "R2 = R1 mod 36524"
  define c where "c = R2 div 1461"
  define R3 where "R3 = R2 mod 1461"
  define e where "e = R3 div 365"
  define r where "r = R3 mod 365"
  have n: "n - 1 = 146097 * a + R1" by (simp add: a_def R1_def)
  have R1: "R1 = 36524 * b + R2" "0 \<le> R1" "R1 < 146097" by (simp_all add: b_def R2_def R1_def)
  have R2: "R2 = 1461 * c + R3" "0 \<le> R2" "R2 < 36524" by (simp_all add: c_def R3_def R2_def)
  have R3: "R3 = 365 * e + r" "0 \<le> R3" "R3 < 1461" by (simp_all add: e_def r_def R3_def)
  have r: "0 \<le> r" "r < 365" by (simp_all add: r_def)
  have a: "0 \<le> a" using assms by (simp add: a_def pos_imp_zdiv_nonneg_iff)
  have b: "0 \<le> b" using R1 by (simp add: b_def pos_imp_zdiv_nonneg_iff)
  have c: "0 \<le> c" using R2 by (simp add: c_def pos_imp_zdiv_nonneg_iff)
  have e: "0 \<le> e" using R3 by (simp add: e_def pos_imp_zdiv_nonneg_iff)
  show ?thesis
  proof (rule that [of a b c e r])
    show "n - 1 = 146097 * a + (36524 * b + (1461 * c + (365 * e + r)))"
      using n R1(1) R2(1) R3(1) by simp
    show "365 * e + r < 1461" using R3 by simp
    show "1461 * c + (365 * e + r) < 36524" using R2 R3(1) by simp
    show "36524 * b + (1461 * c + (365 * e + r)) < 146097" using R1 R2(1) R3(1) by simp
  qed (rule a b c e r)+
qed

lemma month_day_ok_all:
  assumes "0 \<le> r" and "r < 365"
  shows "month_day_ok L r"
proof -
  from assms have m: "r \<in> set [0..364]" "r \<in> set [0..365]" by simp_all
  show ?thesis
  proof (cases L)
    case True
    from all_ok_leap have "\<forall>x \<in> set [0..365]. month_day_ok True x"
      by (simp only: list_all_iff)
    with m(2) True show ?thesis by auto
  next
    case False
    from all_ok_common have "\<forall>x \<in> set [0..364]. month_day_ok False x"
      by (simp only: list_all_iff)
    with m(1) False show ?thesis by auto
  qed
qed

lemma days_in_month_alt:
  assumes "1 \<le> m" and "m \<le> 12"
  shows "days_in_month y m = DAYS_IN_MONTH ! nat m + (if m = 2 \<and> is_leap y then 1 else 0)"
  using month_cases [OF assms]
  by (elim disjE) (simp_all add: days_in_month_def DAYS_IN_MONTH_def)

lemma year_le_max:
  assumes "days_before_year y < 3652059"
  shows "y \<le> 9999"
proof (rule ccontr)
  assume "\<not> y \<le> 9999"
  then have "10000 \<le> y" by simp
  from days_before_year_mono [OF this] assms show False
    by (simp add: days_before_year_values)
qed

lemma december_31:
  assumes "is_leap y"
  shows "days_in_month y 12 = 31" and "ymd2ord y 12 31 = days_before_year y + 366"
  using assms
  by (simp_all add: days_in_month_def ymd2ord_def days_before_month_def DAYS_IN_MONTH_def
      DAYS_BEFORE_MONTH_def)

lemma ord2ymd_correct:
  assumes "1 \<le> n" and "n \<le> MAXORDINAL"
  shows "case ord2ymd n of (y, m, d) \<Rightarrow>
           1 \<le> y \<and> y \<le> 9999 \<and> 1 \<le> m \<and> m \<le> 12 \<and> 1 \<le> d \<and> d \<le> days_in_month y m \<and>
           ymd2ord y m d = n"
proof -
  from assms(1) obtain a b c e r :: int where
    n: "n - 1 = 146097 * a + (36524 * b + (1461 * c + (365 * e + r)))"
    and a: "0 \<le> a" and b: "0 \<le> b" and c: "0 \<le> c" and e: "0 \<le> e"
    and r: "0 \<le> r" "r < 365"
    and r3: "365 * e + r < 1461" and r2: "1461 * c + (365 * e + r) < 36524"
    and r1: "36524 * b + (1461 * c + (365 * e + r)) < 146097"
    by (rule ord_decompose)
  from e r have r3': "0 \<le> 365 * e + r" by simp
  note parts = ord2ymd_parts [OF n r3' r3 c r2 b r1 r]
  from assms(2) have nmax: "n \<le> 3652059" by (simp add: MAXORDINAL_def)
  show ?thesis
  proof (cases "e = 4")
    case True
    from True r3 r have r0: "r = 0" by linarith
    from True r2 r0 have c23: "c \<le> 23" by linarith
    from True r1 r0 c have b3: "b \<le> 3" by linarith
    let ?y = "400 * a + 100 * b + 4 * c + 3 + 1"
    have c24: "c \<le> 24" using c23 by simp
    have dby: "days_before_year ?y = 146097 * a + 36524 * b + 1461 * c + 365 * 3"
      by (rule year_parts_days [OF b b3 c c24]) simp_all
    have leap: "is_leap ?y"
      using year_parts_leap [OF b b3 c c24, of 3 a] c23 by simp
    have o: "ord2ymd n = (?y, 12, 31)"
      unfolding parts using True by simp
    have ord: "ymd2ord ?y 12 31 = n"
      unfolding december_31(2) [OF leap] dby using n True r0 by simp
    have "days_before_year ?y < 3652059"
      unfolding dby using n True r0 nmax by simp
    then have ymax: "?y \<le> 9999" by (rule year_le_max)
    have ymin: "1 \<le> ?y" using a b c by simp
    show ?thesis
      unfolding o using ymin ymax ord december_31(1) [OF leap] by simp
  next
    case e4: False
    from e4 r3 r e have e3: "e \<le> 3" by linarith
    show ?thesis
    proof (cases "b = 4")
      case True
      from True r1 c e r have z: "c = 0" "e = 0" "r = 0" by linarith+
      let ?y = "400 * a + 100 * 3 + 4 * 24 + 3 + 1"
      have dby: "days_before_year ?y = 146097 * a + 36524 * 3 + 1461 * 24 + 365 * 3"
        by (rule year_parts_days) simp_all
      have leap: "is_leap ?y"
        using year_parts_leap [of 3 24 3 a] by simp
      have o: "ord2ymd n = (?y, 12, 31)"
        unfolding parts using True z by simp
      have ord: "ymd2ord ?y 12 31 = n"
        unfolding december_31(2) [OF leap] dby using n True z by simp
      have "days_before_year ?y < 3652059"
        unfolding dby using n True z nmax by simp
      then have ymax: "?y \<le> 9999" by (rule year_le_max)
      have ymin: "1 \<le> ?y" using a by simp
      show ?thesis
        unfolding o using ymin ymax ord december_31(1) [OF leap] by simp
    next
      case b4: False
      from b4 r1 c e r b have b3: "b \<le> 3" by linarith
      from r2 e r have c24: "c \<le> 24" by linarith
      let ?y = "400 * a + 100 * b + 4 * c + e + 1"
      let ?L = "e = 3 \<and> (c \<noteq> 24 \<or> b = 3)"
      have dby: "days_before_year ?y = 146097 * a + 36524 * b + 1461 * c + 365 * e"
        by (rule year_parts_days [OF b b3 c c24 e e3])
      have leap: "is_leap ?y \<longleftrightarrow> ?L"
        by (rule year_parts_leap [OF b b3 c c24 e e3])
      obtain m d where md: "month_day ?L r = (m, d)" by (cases "month_day ?L r")
      from month_day_ok_all [OF r, of ?L] md
      have m: "1 \<le> m" "m \<le> 12" and d: "1 \<le> d"
        "d \<le> DAYS_IN_MONTH ! nat m + (if m = 2 \<and> ?L then 1 else 0)"
        and sum: "DAYS_BEFORE_MONTH ! nat m + (if m > 2 \<and> ?L then 1 else 0) + d = r + 1"
        by (simp_all add: month_day_ok_def)
      have o: "ord2ymd n = (?y, m, d)"
        unfolding parts using e4 b4 md by (simp add: algebra_simps)
      have dim: "d \<le> days_in_month ?y m"
        unfolding days_in_month_alt [OF m] leap using d(2) .
      have ord: "ymd2ord ?y m d = n"
        unfolding ymd2ord_def days_before_month_def leap dby using sum n by linarith
      have "days_before_year ?y < 3652059"
        unfolding dby using n r nmax by linarith
      then have ymax: "?y \<le> 9999" by (rule year_le_max)
      have ymin: "1 \<le> ?y" using a b c e by simp
      show ?thesis
        unfolding o using ymin ymax m d(1) dim ord by simp
    qed
  qed
qed

subsection \<open>The order of dates\<close>

lemma day_of_year_bounds:
  assumes "1 \<le> m" and "m \<le> 12" and "1 \<le> d" and "d \<le> days_in_month y m"
  shows "1 \<le> days_before_month y m + d"
    and "days_before_month y m + d \<le> 365 + (if is_leap y then 1 else 0)"
  using month_cases [OF assms(1,2)] assms(3,4)
  by (elim disjE; simp add: days_in_month_def days_before_month_def DAYS_IN_MONTH_def
      DAYS_BEFORE_MONTH_def split: if_splits)+

lemma month_order:
  assumes "1 \<le> m" and "m < m'" and "m' \<le> 12"
  shows "days_before_month y m + days_in_month y m \<le> days_before_month y m'"
proof -
  from assms have m: "1 \<le> m" "m \<le> 12" and m': "1 \<le> m'" "m' \<le> 12" by simp_all
  from month_cases [OF m] month_cases [OF m'] assms(2) show ?thesis
    by (elim disjE; simp add: days_in_month_def days_before_month_def DAYS_IN_MONTH_def
        DAYS_BEFORE_MONTH_def)
qed

lemma ymd2ord_bounds:
  assumes "1 \<le> y" and "y \<le> 9999" and "1 \<le> m" and "m \<le> 12" and "1 \<le> d"
    and "d \<le> days_in_month y m"
  shows "1 \<le> ymd2ord y m d" and "ymd2ord y m d \<le> MAXORDINAL"
proof -
  note doy = day_of_year_bounds [OF assms(3-6)]
  from days_before_year_mono [OF assms(1)] have "0 \<le> days_before_year y"
    by (simp add: days_before_year_values)
  with doy(1) show "1 \<le> ymd2ord y m d" by (simp add: ymd2ord_def)
  from assms(2) have "y + 1 \<le> 10000" by simp
  from days_before_year_mono [OF this] have "days_before_year (y + 1) \<le> 3652059"
    by (simp add: days_before_year_values)
  with doy(2) show "ymd2ord y m d \<le> MAXORDINAL"
    unfolding days_before_year_step ymd2ord_def MAXORDINAL_def by linarith
qed

lemma date_order:
  assumes v1: "1 \<le> m1" "m1 \<le> 12" "1 \<le> d1" "d1 \<le> days_in_month y1 m1"
    and v2: "1 \<le> m2" "m2 \<le> 12" "1 \<le> d2" "d2 \<le> days_in_month y2 m2"
    and lt: "ymd2ord y1 m1 d1 < ymd2ord y2 m2 d2"
  shows "y1 < y2 \<or> (y1 = y2 \<and> (m1 < m2 \<or> (m1 = m2 \<and> d1 < d2)))"
proof (rule ccontr)
  assume neg: "\<not> ?thesis"
  note doy1 = day_of_year_bounds [OF v1]
  note doy2 = day_of_year_bounds [OF v2]
  show False
  proof (cases "y2 < y1")
    case True
    then have "y2 + 1 \<le> y1" by simp
    from days_before_year_mono [OF this]
    have "days_before_year y2 + 365 + (if is_leap y2 then 1 else 0) \<le> days_before_year y1"
      unfolding days_before_year_step .
    with doy1(1) doy2(2) lt show False unfolding ymd2ord_def by linarith
  next
    case False
    with neg have y: "y1 = y2" by auto
    show False
    proof (cases "m2 < m1")
      case True
      from month_order [OF v2(1) True v1(2), of y2] v2(4) v1(3) lt
      show False unfolding ymd2ord_def y by linarith
    next
      case False
      with neg y have "m1 = m2" "\<not> d1 < d2" by auto
      with lt show False unfolding ymd2ord_def y by simp
    qed
  qed
qed

section \<open>Subtracting days from a datetime\<close>

lemma timedelta_new_normal:
  assumes "0 \<le> s" and "s < 86400" and "0 \<le> us" and "us < 1000000"
  shows "timedelta_new d s us = \<lparr>days = d, seconds = s, microseconds = us\<rparr>"
  using assms by (simp add: timedelta_new_def Let_def)

lemma hms_split:
  fixes H M S :: int
  assumes "0 \<le> M" and "M \<le> 59" and "0 \<le> S" and "S \<le> 59"
  shows "(H * 3600 + M * 60 + S) div 3600 = H"
    and "(H * 3600 + M * 60 + S) mod 3600 div 60 = M"
    and "(H * 3600 + M * 60 + S) mod 3600 mod 60 = S"
proof -
  have x: "H * 3600 + M * 60 + S = 3600 * H + (M * 60 + S)" by simp
  have b: "0 \<le> M * 60 + S" "M * 60 + S < 3600" using assms by simp_all
  show "(H * 3600 + M * 60 + S) div 3600 = H" by (rule int_div_pos_eq [OF x b])
  have m: "(H * 3600 + M * 60 + S) mod 3600 = M * 60 + S" by (rule int_mod_pos_eq [OF x b])
  have y: "M * 60 + S = 60 * M + S" by simp
  have c: "S < 60" using assms by simp
  show "(H * 3600 + M * 60 + S) mod 3600 div 60 = M"
    unfolding m by (rule int_div_pos_eq [OF y assms(3) c])
  show "(H * 3600 + M * 60 + S) mod 3600 mod 60 = S"
    unfolding m by (rule int_mod_pos_eq [OF y assms(3) c])
qed

lemma datetime_sub_days:
  assumes "valid_datetime t"
  shows "datetime_sub t (timedelta_new k 0 0) =
     (if 0 < toordinal t - k \<and> toordinal t - k \<le> MAXORDINAL
      then Inr (days_earlier t k)
      else Inl (OverflowError ''date value out of range''))"
proof -
  note v = valid_datetime_fields [OF assms]
  let ?secs = "hour t * 3600 + minute t * 60 + second t"
  have s: "0 \<le> ?secs" "?secs < 86400" using v by simp_all
  have us: "0 \<le> microsecond t" "microsecond t < 1000000" using v by simp_all
  have neg: "timedelta_neg (timedelta_new k 0 0) = \<lparr>days = - k, seconds = 0, microseconds = 0\<rparr>"
    by (simp add: timedelta_neg_def timedelta_new_def Let_def)
  have own: "timedelta_new (toordinal t) ?secs (microsecond t) =
      \<lparr>days = toordinal t, seconds = ?secs, microseconds = microsecond t\<rparr>"
    by (rule timedelta_new_normal [OF s us])
  have sum: "timedelta_add \<lparr>days = toordinal t, seconds = ?secs, microseconds = microsecond t\<rparr>
      \<lparr>days = - k, seconds = 0, microseconds = 0\<rparr> =
      \<lparr>days = toordinal t - k, seconds = ?secs, microseconds = microsecond t\<rparr>"
    using timedelta_new_normal [OF s us, of "toordinal t - k"] by (simp add: timedelta_add_def)
  note h = hms_split [OF v(10,11,12,13), of "hour t"]
  obtain y m d where o: "ord2ymd (toordinal t - k) = (y, m, d)"
    by (cases "ord2ymd (toordinal t - k)")
  have rec: "t\<lparr>year := y, month := m, day := d\<rparr> =
      \<lparr>year = y, month = m, day = d, hour = hour t, minute = minute t, second = second t,
       microsecond = microsecond t\<rparr>"
    by (cases t) simp
  show ?thesis
    unfolding datetime_sub_def datetime_add_def neg own sum Let_def days_earlier_def o
    by (simp add: h rec o)
qed

lemma days_earlier_valid:
  assumes "valid_datetime t" and "0 < toordinal t - k" and "toordinal t - k \<le> MAXORDINAL"
  shows "valid_datetime (days_earlier t k)"
    and "toordinal (days_earlier t k) = toordinal t - k"
    and "hour (days_earlier t k) = hour t" and "minute (days_earlier t k) = minute t"
    and "second (days_earlier t k) = second t"
    and "microsecond (days_earlier t k) = microsecond t"
proof -
  from assms(2) have n: "1 \<le> toordinal t - k" by simp
  obtain y m d where o: "ord2ymd (toordinal t - k) = (y, m, d)"
    by (cases "ord2ymd (toordinal t - k)")
  from ord2ymd_correct [OF n assms(3)] o
  have c: "1 \<le> y" "y \<le> 9999" "1 \<le> m" "m \<le> 12" "1 \<le> d" "d \<le> days_in_month y m"
    "ymd2ord y m d = toordinal t - k"
    by simp_all
  note v = valid_datetime_fields [OF assms(1)]
  have de: "days_earlier t k = t\<lparr>year := y, month := m, day := d\<rparr>"
    by (simp add: days_earlier_def o)
  show "valid_datetime (days_earlier t k)"
    unfolding de using c v by (simp add: valid_datetime_def MINYEAR_def MAXYEAR_def)
  show "toordinal (days_earlier t k) = toordinal t - k"
    unfolding de using c(7) by (simp add: toordinal_def)
  show "hour (days_earlier t k) = hour t" "minute (days_earlier t k) = minute t"
    "second (days_earlier t k) = second t" "microsecond (days_earlier t k) = microsecond t"
    unfolding de by simp_all
qed

lemma toordinal_bounds:
  assumes "valid_datetime t"
  shows "1 \<le> toordinal t" and "toordinal t \<le> MAXORDINAL"
  using ymd2ord_bounds [OF valid_datetime_fields(1-6) [OF assms]]
  by (simp_all add: toordinal_def)

lemma span_days_range: "7 \<le> span_days ts" "span_days ts \<le> 180"
  by (simp_all add: span_days_def)

lemma get_published_after_eq:
  assumes "valid_datetime now"
  shows "get_published_after now time_span =
     (if span_days time_span < toordinal now
      then Inr (isoformat (days_earlier now (span_days time_span)) (CHR ''T'') @ ''Z'')
      else Inl (OverflowError ''date value out of range''))"
proof -
  have d: "(if time_span = ''1 Week'' then timedelta_new 7 0 0
            else if time_span = ''1 Month'' then timedelta_new 30 0 0
            else if time_span = ''6 Months'' then timedelta_new 180 0 0
            else timedelta_new 7 0 0) = timedelta_new (span_days time_span) 0 0"
    by (simp add: span_days_def)
  from toordinal_bounds(2) [OF assms] span_days_range(1) [of time_span]
  have le: "toordinal now - span_days time_span \<le> MAXORDINAL" by linarith
  show ?thesis
    unfolding get_published_after_def d Let_def datetime_sub_days [OF assms]
    using le by simp
qed

lemma later_date_ge:
  assumes "valid_datetime t1" and "valid_datetime t2" and "toordinal t1 < toordinal t2"
  shows "datetime_ge t2 t1" and "\<not> datetime_ge t1 t2"
proof -
  note v1 = valid_datetime_fields [OF assms(1)]
  note v2 = valid_datetime_fields [OF assms(2)]
  from date_order [OF v1(3-6) v2(3-6) assms(3) [unfolded toordinal_def]]
  have lt: "year t1 < year t2 \<or> (year t1 = year t2 \<and>
      (month t1 < month t2 \<or> (month t1 = month t2 \<and> day t1 < day t2)))" .
  then show "datetime_ge t2 t1" by (auto simp: datetime_ge_def getstate_def)
  from lt show "\<not> datetime_ge t1 t2" by (auto simp: datetime_ge_def getstate_def)
qed

lemma published_cutoff:
  assumes "valid_datetime now" and "span_days time_span < toordinal now"
  shows "get_published_after now time_span =
           Inr (isoformat (days_earlier now (span_days time_span)) (CHR ''T'') @ ''Z'')"
    and "valid_datetime (days_earlier now (span_days time_span))"
    and "parse_iso_date (Some (isoformat (days_earlier now (span_days time_span)) (CHR ''T'') @ ''Z'')) =
           Inr (days_earlier now (span_days time_span))"
proof -
  from assms(2) have p: "0 < toordinal now - span_days time_span" by simp
  from toordinal_bounds(2) [OF assms(1)] span_days_range(1) [of time_span]
  have le: "toordinal now - span_days time_span \<le> MAXORDINAL" by linarith
  show "get_published_after now time_span =
      Inr (isoformat (days_earlier now (span_days time_span)) (CHR ''T'') @ ''Z'')"
    using assms(2) by (simp add: get_published_after_eq [OF assms(1)])
  show v: "valid_datetime (days_earlier now (span_days time_span))"
    by (rule days_earlier_valid(1) [OF assms(1) p le])
  show "parse_iso_date (Some (isoformat (days_earlier now (span_days time_span)) (CHR ''T'') @ ''Z'')) =
      Inr (days_earlier now (span_days time_span))"
    by (rule parse_isoformat [OF v])
qed


section \<open>Claims about the time window\<close>




text \<open>
  C10. For every time span and every current time, the cutoff text that
  \<open>get_published_after\<close> returns is parsed by \<open>parse_iso_date\<close> without an exception: it
  is the \<open>isoformat\<close> text of the datetime it is parsed to, and it is matched by the
  format with fractional seconds (the first of the two) when the current time has
  microseconds and by the format without them (the second) otherwise. So lines 45 to 104
  never return through the handler of lines 70 to 72, whatever the message. The
  hypothesis holds of every datetime object, since the constructor checks it.
\<close>

theorem cutoff_string_parses:
  assumes "valid_datetime (utcnow e)"
  shows "(get_published_after (utcnow e) time_span = Inr s \<longrightarrow>
            (\<exists>t. parse_iso_date (Some s) = Inr t \<and> s = isoformat t (CHR ''T'') @ ''Z'' \<and>
                 strptime (Some s) (formats ! (if microsecond (utcnow e) = 0 then 1 else 0)) = Inr t)) \<and>
         select_categories e time_span region \<noteq>
           Inr (Inl ([], [St_error (''Error parsing threshold date: '' @ msg)]))"
proof (cases "span_days time_span < toordinal (utcnow e)")
  case False
  then have "get_published_after (utcnow e) time_span = Inl (OverflowError ''date value out of range'')"
    by (simp add: get_published_after_eq [OF assms])
  then show ?thesis by (simp add: select_categories_def)
next
  case True
  let ?t = "days_earlier (utcnow e) (span_days time_span)"
  note c = published_cutoff [OF assms True]
  from True have p: "0 < toordinal (utcnow e) - span_days time_span" by simp
  from toordinal_bounds(2) [OF assms] span_days_range(1) [of time_span]
  have le: "toordinal (utcnow e) - span_days time_span \<le> MAXORDINAL" by linarith
  have us: "microsecond ?t = microsecond (utcnow e)"
    by (rule days_earlier_valid(6) [OF assms p le])
  have fmt: "strptime (Some (isoformat ?t (CHR ''T'') @ ''Z''))
      (formats ! (if microsecond (utcnow e) = 0 then 1 else 0)) = Inr ?t"
  proof (cases "microsecond (utcnow e) = 0")
    case True
    with strptime_plain_roundtrip [OF c(2)] us show ?thesis by simp
  next
    case False
    with strptime_frac_roundtrip [OF c(2)] us show ?thesis by simp
  qed
  have one: "get_published_after (utcnow e) time_span = Inr s \<longrightarrow>
      (\<exists>t. parse_iso_date (Some s) = Inr t \<and> s = isoformat t (CHR ''T'') @ ''Z'' \<and>
           strptime (Some s) (formats ! (if microsecond (utcnow e) = 0 then 1 else 0)) = Inr t)"
  proof
    assume "get_published_after (utcnow e) time_span = Inr s"
    with c(1) have s: "s = isoformat ?t (CHR ''T'') @ ''Z''" by simp
    show "\<exists>t. parse_iso_date (Some s) = Inr t \<and> s = isoformat t (CHR ''T'') @ ''Z'' \<and>
        strptime (Some s) (formats ! (if microsecond (utcnow e) = 0 then 1 else 0)) = Inr t"
      unfolding s by (rule exI [of _ ?t]) (intro conjI c(3) refl fmt)
  qed
  have two: "select_categories e time_span region \<noteq>
      Inr (Inl ([], [St_error (''Error parsing threshold date: '' @ msg)]))"
    unfolding select_categories_def c(1) Let_def
    by (simp add: c(3) split: sum.splits prod.splits)
  from one two show ?thesis by (rule conjI)
qed

text \<open>C10 on the example run: the cutoff of one week before 2024-03-05 10:20:30.000012.\<close>

theorem cutoff_string_parses_witness:
  "(\<exists>t. parse_iso_date (Some ''2024-02-27T10:20:30.000012Z'') = Inr t \<and>
        ''2024-02-27T10:20:30.000012Z'' = isoformat t (CHR ''T'') @ ''Z'' \<and>
        strptime (Some ''2024-02-27T10:20:30.000012Z'') (formats ! 0) = Inr t) \<and>
   select_categories example_env ''1 Week'' ''Brazil'' \<noteq>
     Inr (Inl ([], [St_error (''Error parsing threshold date: '' @ ''unconverted data remains'')]))"
proof -
  have v: "valid_datetime (utcnow example_env)" by code_simp
  have g: "get_published_after (utcnow example_env) ''1 Week'' = Inr ''2024-02-27T10:20:30.000012Z''"
    by code_simp
  have m: "microsecond (utcnow example_env) = 12" by (simp add: example_env_def)
  from cutoff_string_parses [OF v, of "''1 Week''" "''2024-02-27T10:20:30.000012Z''" "''Brazil''"
      "''unconverted data remains''"] g m
  show ?thesis by simp
qed

text \<open>
  C8. The remote call returns three records: A and B of category 10, published at the
  current time, and C of category 20, published 40 days before it (the result of
  \<open>now - timedelta(days=40)\<close>), each timestamp written as \<open>isoformat\<close> with a trailing Z.
  Under the window '1 Week', lines 45 to 104 select exactly one category, 10, with count
  2 and the titles A, B; the recency filter, run with the parsed cutoff, keeps A and B and
  leaves C out.
\<close>

theorem scenario_three_records:
  assumes "valid_datetime (utcnow e)"
    and "datetime_sub (utcnow e) (timedelta_new 40 0 0) = Inr forty_days_ago"
    and "videos_list e (if region = ''Brazil'' then ''BR'' else ''US'') = Inr \<lparr>items = Some
           [video_item ''10'' ''A'' (isoformat (utcnow e) (CHR ''T'') @ ''Z''),
            video_item ''10'' ''B'' (isoformat (utcnow e) (CHR ''T'') @ ''Z''),
            video_item ''20'' ''C'' (isoformat forty_days_ago (CHR ''T'') @ ''Z'')]\<rparr>"
  shows "select_categories e ''1 Week'' region =
           Inr (Inr ([(''10'', 2)], [(''10'', [''A'', ''B''])])) \<and>
         (\<exists>threshold_date.
            get_published_after (utcnow e) ''1 Week'' =
              Inr (isoformat threshold_date (CHR ''T'') @ ''Z'') \<and>
            parse_iso_date (Some (isoformat threshold_date (CHR ''T'') @ ''Z'')) =
              Inr threshold_date \<and>
            filter_loop
              [video_item ''10'' ''A'' (isoformat (utcnow e) (CHR ''T'') @ ''Z''),
               video_item ''10'' ''B'' (isoformat (utcnow e) (CHR ''T'') @ ''Z''),
               video_item ''20'' ''C'' (isoformat forty_days_ago (CHR ''T'') @ ''Z'')]
              threshold_date [] =
              Inr [video_item ''10'' ''A'' (isoformat (utcnow e) (CHR ''T'') @ ''Z''),
                   video_item ''10'' ''B'' (isoformat (utcnow e) (CHR ''T'') @ ''Z'')])"
proof -
  let ?now = "utcnow e"
  let ?th = "days_earlier ?now 7"
  note v = assms(1)
  from assms(2) have ord40: "0 < toordinal ?now - 40 \<and> toordinal ?now - 40 \<le> MAXORDINAL"
    and t40: "forty_days_ago = days_earlier ?now 40"
    by (simp_all add: datetime_sub_days [OF v] split: if_splits)
  from ord40 have p40: "0 < toordinal ?now - 40" and le40: "toordinal ?now - 40 \<le> MAXORDINAL"
    by simp_all
  have sp: "span_days ''1 Week'' = 7" by (simp add: span_days_def)
  from p40 have lt: "span_days ''1 Week'' < toordinal ?now" unfolding sp by simp
  note c = published_cutoff [OF v lt, unfolded sp]
  from p40 have p7: "0 < toordinal ?now - 7" by simp
  from le40 toordinal_bounds(2) [OF v] have le7: "toordinal ?now - 7 \<le> MAXORDINAL" by simp
  have o7: "toordinal ?th = toordinal ?now - 7" by (rule days_earlier_valid(2) [OF v p7 le7])
  have v40: "valid_datetime (days_earlier ?now 40)" by (rule days_earlier_valid(1) [OF v p40 le40])
  have o40: "toordinal (days_earlier ?now 40) = toordinal ?now - 40"
    by (rule days_earlier_valid(2) [OF v p40 le40])
  have now_ge: "datetime_ge ?now ?th"
    by (rule later_date_ge(1) [OF c(2) v]) (simp add: o7)
  have old_lt: "\<not> datetime_ge (days_earlier ?now 40) ?th"
    by (rule later_date_ge(2) [OF v40 c(2)]) (simp add: o7 o40)
  have pn: "parse_iso_date (Some (isoformat ?now (CHR ''T'') @ ''Z'')) = Inr ?now"
    by (rule parse_isoformat [OF v])
  have po: "parse_iso_date (Some (isoformat (days_earlier ?now 40) (CHR ''T'') @ ''Z'')) =
      Inr (days_earlier ?now 40)"
    by (rule parse_isoformat [OF v40])
  have fl: "filter_loop
      [video_item ''10'' ''A'' (isoformat ?now (CHR ''T'') @ ''Z''),
       video_item ''10'' ''B'' (isoformat ?now (CHR ''T'') @ ''Z''),
       video_item ''20'' ''C'' (isoformat forty_days_ago (CHR ''T'') @ ''Z'')] ?th [] =
      Inr [video_item ''10'' ''A'' (isoformat ?now (CHR ''T'') @ ''Z''),
           video_item ''10'' ''B'' (isoformat ?now (CHR ''T'') @ ''Z'')]"
    unfolding t40 by (simp add: video_item_def pn po now_ge old_lt)
  have gl: "group_loop
      [video_item ''10'' ''A'' (isoformat ?now (CHR ''T'') @ ''Z''),
       video_item ''10'' ''B'' (isoformat ?now (CHR ''T'') @ ''Z'')] ([], []) =
      ([(''10'', 2)], [(''10'', [''A'', ''B''])])"
    by (simp add: video_item_def truthy_def)
  have mc: "most_common 10 [(''10'', 2)] = [(''10'', 2)]"
    by (simp add: most_common_def)
  have sel: "select_categories e ''1 Week'' region =
      Inr (Inr ([(''10'', 2)], [(''10'', [''A'', ''B''])]))"
    unfolding select_categories_def c(1) Let_def assms(3)
    by (simp add: c(3) fl gl mc del: filter_loop.simps group_loop.simps)
  have ex: "\<exists>threshold_date.
      get_published_after ?now ''1 Week'' = Inr (isoformat threshold_date (CHR ''T'') @ ''Z'') \<and>
      parse_iso_date (Some (isoformat threshold_date (CHR ''T'') @ ''Z'')) = Inr threshold_date \<and>
      filter_loop
        [video_item ''10'' ''A'' (isoformat ?now (CHR ''T'') @ ''Z''),
         video_item ''10'' ''B'' (isoformat ?now (CHR ''T'') @ ''Z''),
         video_item ''20'' ''C'' (isoformat forty_days_ago (CHR ''T'') @ ''Z'')]
        threshold_date [] =
        Inr [video_item ''10'' ''A'' (isoformat ?now (CHR ''T'') @ ''Z''),
             video_item ''10'' ''B'' (isoformat ?now (CHR ''T'') @ ''Z'')]"
    by (rule exI [of _ ?th]) (intro conjI c(1) c(3) fl)
  from sel ex show ?thesis by (rule conjI)
qed

text \<open>C8 at 2024-03-05 10:20:30.000012, where 40 days earlier is 2024-01-25.\<close>

theorem scenario_three_records_witness:
  "select_categories
     \<lparr>utcnow = \<lparr>year = 2024, month = 3, day = 5, hour = 10, minute = 20, second = 30,
                 microsecond = 12\<rparr>,
      videos_list = (\<lambda>region_code. Inr \<lparr>items = Some
        [video_item ''10'' ''A'' ''2024-03-05T10:20:30.000012Z'',
         video_item ''10'' ''B'' ''2024-03-05T10:20:30.000012Z'',
         video_item ''20'' ''C'' ''2024-01-25T10:20:30.000012Z'']\<rparr>),
      videoCategories_list = (\<lambda>ids. Inr \<lparr>cat_items = Some []\<rparr>)\<rparr>
     ''1 Week'' ''Brazil'' =
   Inr (Inr ([(''10'', 2)], [(''10'', [''A'', ''B''])]))"
proof -
  let ?now = "\<lparr>year = 2024, month = 3, day = 5, hour = 10, minute = 20, second = 30,
    microsecond = 12\<rparr>"
  let ?old = "\<lparr>year = 2024, month = 1, day = 25, hour = 10, minute = 20, second = 30,
    microsecond = 12\<rparr>"
  let ?e = "\<lparr>utcnow = ?now,
      videos_list = (\<lambda>region_code. Inr \<lparr>items = Some
        [video_item ''10'' ''A'' ''2024-03-05T10:20:30.000012Z'',
         video_item ''10'' ''B'' ''2024-03-05T10:20:30.000012Z'',
         video_item ''20'' ''C'' ''2024-01-25T10:20:30.000012Z'']\<rparr>),
      videoCategories_list = (\<lambda>ids. Inr \<lparr>cat_items = Some []\<rparr>)\<rparr>"
  have n: "isoformat ?now (CHR ''T'') @ ''Z'' = ''2024-03-05T10:20:30.000012Z''" by code_simp
  have ol: "isoformat ?old (CHR ''T'') @ ''Z'' = ''2024-01-25T10:20:30.000012Z''" by code_simp
  have v: "valid_datetime (utcnow ?e)" by code_simp
  have s: "datetime_sub (utcnow ?e) (timedelta_new 40 0 0) = Inr ?old" by code_simp
  have l: "videos_list ?e (if ''Brazil'' = ''Brazil'' then ''BR'' else ''US'') = Inr \<lparr>items = Some
           [video_item ''10'' ''A'' (isoformat (utcnow ?e) (CHR ''T'') @ ''Z''),
            video_item ''10'' ''B'' (isoformat (utcnow ?e) (CHR ''T'') @ ''Z''),
            video_item ''20'' ''C'' (isoformat ?old (CHR ''T'') @ ''Z'')]\<rparr>"
    by (simp add: n ol)
  from scenario_three_records [OF v s l] show ?thesis by (rule conjunct1)
qed

end
